theory Spec2Isabelle
  imports Complex_Main
begin

section \<open>Data model\<close>

text \<open>
  The vote path of the server (\<^verbatim>\<open>vote\<close>, \<^verbatim>\<open>categoryVote\<close> and their helpers in the
  routes file, \<^verbatim>\<open>acquireLock\<close> in \<^verbatim>\<open>service/redis/redisLock.ts\<close>) is embedded as
  functions that take the contents of the two databases and of the lock backend and
  return them updated, together with the reply. Identifiers (segment UUID, user ids,
  hashed values, categories) are strings, database integers are \<^typ>\<open>int\<close>, video
  durations are \<^typ>\<open>real\<close>.
\<close>

datatype ActionType = Skip | Mute | Chapter | Full | Poi

fun actionTypeName :: "ActionType \<Rightarrow> string" where
  "actionTypeName Skip = ''skip''"
| "actionTypeName Mute = ''mute''"
| "actionTypeName Chapter = ''chapter''"
| "actionTypeName Full = ''full''"
| "actionTypeName Poi = ''poi''"

text \<open>The columns of \<^verbatim>\<open>DBSegment\<close> that the vote path reads or writes.\<close>

record segment =
  UUID :: string
  videoID :: string
  cid :: string
  service :: string
  userID :: string
  timeSubmitted :: int
  votes :: int
  locked :: int
  category :: string
  actionType :: ActionType
  hidden :: int
  shadowHidden :: int
  videoDuration :: real

text \<open>A row of the private table \<^verbatim>\<open>votes\<close>.\<close>

record voteRow =
  v_UUID :: string
  v_userID :: string
  v_hashedIP :: string
  v_type :: int
  v_normalUserID :: string
  v_originalType :: int

text \<open>A row of the public table \<^verbatim>\<open>categoryVotes\<close> (one aggregate per segment and category).\<close>

record categoryVoteRow =
  cv_UUID :: string
  cv_category :: string
  cv_votes :: int

text \<open>A row of the private table \<^verbatim>\<open>categoryVotes\<close> (which category a user chose).\<close>

record privateCategoryVoteRow =
  pcv_UUID :: string
  pcv_userID :: string
  pcv_hashedIP :: string
  pcv_category :: string
  pcv_timeSubmitted :: int

record lockCategoryRow =
  lc_videoID :: string
  lc_service :: string
  lc_category :: string
  lc_actionType :: ActionType

record warningRow =
  w_userID :: string
  w_issueTime :: int
  w_enabled :: int
  w_type :: int
  w_reason :: string

text \<open>
  The mutable world of one request: the tables of the public and of the private
  database in storage order, the keys held in the lock backend, and two counters
  that record how often a lock's \<^verbatim>\<open>unlock\<close> closure and \<^verbatim>\<open>Logger.error\<close> were called.
\<close>

record store =
  sponsorTimes :: "segment list"
  privateVotes :: "voteRow list"
  categoryVotes :: "categoryVoteRow list"
  privateCategoryVotes :: "privateCategoryVoteRow list"
  lockCategories :: "lockCategoryRow list"
  warnings :: "warningRow list"
  redisKeys :: "string list"
  unlockCalls :: nat
  errorLog :: nat

text \<open>
  Every awaited call of \<^verbatim>\<open>vote\<close> that can reject, in source order. The first six
  are awaited between \<^verbatim>\<open>acquireLock\<close> and the \<^verbatim>\<open>try\<close> block, the next eight inside
  the \<^verbatim>\<open>try\<close> block; \<open>CategoryStep k\<close> is the \<open>k\<close>-th awaited call of \<^verbatim>\<open>categoryVote\<close>.
\<close>

datatype site =
    LoadSegment | TempVIPLookup | VIPLookup | BanLookup | WarningsQuery | VideoLockQuery
  | VotesRowQuery | ReputationQuery | SameIPQuery | VoteUpsert | VotesUpdate | UnhideUpdate
  | DurationRefresh | LockUpdate
  | CategoryStep nat

text \<open>
  What the code reads but does not own: the configuration, the collaborators that are
  imported from other modules (\<^verbatim>\<open>getHashCache\<close>, \<^verbatim>\<open>isUserVIP\<close>, \<^verbatim>\<open>isUserTempVIP\<close>,
  \<^verbatim>\<open>checkBanStatus\<close>, \<^verbatim>\<open>getVideoDetails\<close>, \<^verbatim>\<open>deleteLockCategories\<close>), the clock, the
  behaviour of the lock backend, which group of a grouped query the private database
  returns first (\<open>firstGroup\<close>, an index into the groups), and which awaited calls reject.
\<close>

record env =
  minUserIDLength :: nat
  globalSalt :: string
  hoursAfterWarningExpires :: int
  maxNumberOfActiveWarnings :: int
  categoryList :: "string list"
  categorySupport :: "string \<Rightarrow> ActionType list option"
  redisEnabled :: bool
  redisSetThrows :: bool
  redisDelFails :: bool
  getHashCache :: "string \<Rightarrow> string"
  isUserVIP :: "string \<Rightarrow> bool"
  isUserTempVIP :: "string \<Rightarrow> string \<Rightarrow> bool"
  checkBanStatus :: "string \<Rightarrow> string \<Rightarrow> bool"
  getVideoDetails :: "string \<Rightarrow> (string \<times> real) list option"
  deleteLockCategories :: "string \<Rightarrow> string \<Rightarrow> lockCategoryRow list \<Rightarrow> lockCategoryRow list"
  firstGroup :: "(nat \<times> string) list \<Rightarrow> nat"
  now :: int
  throws :: "site \<Rightarrow> bool"

text \<open>The reply of \<^verbatim>\<open>vote\<close>; a rejected promise is \<open>Threw\<close>.\<close>

record response =
  status :: nat
  message :: "string option"
  json :: "string option"

datatype outcome = Threw | Returned response

definition reply :: "nat \<Rightarrow> response" where
  "reply code = \<lparr>status = code, message = None, json = None\<rparr>"

definition replyWith :: "nat \<Rightarrow> string \<Rightarrow> response" where
  "replyWith code msg = \<lparr>status = code, message = Some msg, json = None\<rparr>"

section \<open>The lock (redisLock.ts)\<close>

text \<open>
  The \<^verbatim>\<open>unlock\<close> closure of an acquired lock is either \<^verbatim>\<open>() => void 0\<close> or
  \<^verbatim>\<open>() => void redis.del(key).catch(...)\<close>. The expiry of a key (\<^verbatim>\<open>PX: timeout\<close>) is
  not modelled: a key stays until it is deleted.
\<close>

datatype release = NoOp | DelKey string

datatype AcquiredLock = NotAcquired | Held release

definition lockStatus :: "AcquiredLock \<Rightarrow> bool" where
  "lockStatus l = (case l of NotAcquired \<Rightarrow> False | Held r \<Rightarrow> True)"

definition logError :: "store \<Rightarrow> store" where
  "logError st = st\<lparr>errorLog := Suc (errorLog st)\<rparr>"

definition acquireLock :: "env \<Rightarrow> store \<Rightarrow> string \<Rightarrow> AcquiredLock \<times> store" where
  "acquireLock e st key =
     (if \<not> redisEnabled e then (Held NoOp, st)
      else if redisSetThrows e then (Held NoOp, logError st)
      else if key \<notin> set (redisKeys st)
        then (Held (DelKey key), st\<lparr>redisKeys := key # redisKeys st\<rparr>)
      else (NotAcquired, st))"

text \<open>
  \<^verbatim>\<open>redis.del(key)\<close>: the promise is fulfilled with the key removed, or rejected
  (\<open>None\<close>) with the keys as they were.
\<close>

definition redisDel :: "env \<Rightarrow> string \<Rightarrow> store \<Rightarrow> store option" where
  "redisDel e key st =
     (if redisDelFails e then None
      else Some (st\<lparr>redisKeys := removeAll key (redisKeys st)\<rparr>))"

text \<open>
  Calling the closure. The promise of the \<^verbatim>\<open>DEL\<close> is discarded by \<^verbatim>\<open>void\<close> and its
  rejection ends in the \<^verbatim>\<open>catch\<close> handler, which logs it: the caller gets nothing
  but the updated world.
\<close>

definition unlock :: "env \<Rightarrow> release \<Rightarrow> store \<Rightarrow> store" where
  "unlock e r st =
     (let st1 = st\<lparr>unlockCalls := Suc (unlockCalls st)\<rparr>
      in case r of
           NoOp \<Rightarrow> st1
         | DelKey key \<Rightarrow>
             (case redisDel e key st1 of
                None \<Rightarrow> logError st1
              | Some st2 \<Rightarrow> st2))"

section \<open>Queries and updates on the tables\<close>

text \<open>
  A \<^verbatim>\<open>get\<close> returns the first matching row or \<^verbatim>\<open>undefined\<close> (\<open>None\<close>); an
  \<^verbatim>\<open>UPDATE\<close> changes every matching row; an \<^verbatim>\<open>INSERT\<close> appends a row.
\<close>

definition getSegment :: "store \<Rightarrow> string \<Rightarrow> segment option" where
  "getSegment st u = find (\<lambda>s. UUID s = u) (sponsorTimes st)"

definition updateSegment :: "string \<Rightarrow> (segment \<Rightarrow> segment) \<Rightarrow> store \<Rightarrow> store" where
  "updateSegment u f st =
     st\<lparr>sponsorTimes := map (\<lambda>s. if UUID s = u then f s else s) (sponsorTimes st)\<rparr>"

text \<open>The rows of the private table \<^verbatim>\<open>categoryVotes\<close> of one user on one segment.\<close>

definition userCategoryRows :: "store \<Rightarrow> string \<Rightarrow> string \<Rightarrow> privateCategoryVoteRow list" where
  "userCategoryRows st u usr =
     filter (\<lambda>r. pcv_UUID r = u \<and> pcv_userID r = usr) (privateCategoryVotes st)"

text \<open>
  \<^verbatim>\<open>select count(*) as votes, category from "categoryVotes" where "UUID" = ? and
  "userID" = ? group by category\<close>: one group per category among the user's rows,
  with the number of its rows.
\<close>

definition categoryGroups :: "store \<Rightarrow> string \<Rightarrow> string \<Rightarrow> (nat \<times> string) list" where
  "categoryGroups st u usr =
     map (\<lambda>c. (length (filter (\<lambda>x. pcv_category x = c) (userCategoryRows st u usr)), c))
       (remdups (map pcv_category (userCategoryRows st u usr)))"

text \<open>
  The query is read with \<^verbatim>\<open>get\<close>, which returns the first group or \<^verbatim>\<open>undefined\<close>.
  It has no \<^verbatim>\<open>ORDER BY\<close>, so SQL leaves open which group comes first: the database
  engine decides, here through \<open>firstGroup\<close>, whose answer is taken as an index into
  the groups.
\<close>

definition usersLastVote :: "env \<Rightarrow> store \<Rightarrow> string \<Rightarrow> string \<Rightarrow> (nat \<times> string) option" where
  "usersLastVote e st u usr =
     (case categoryGroups st u usr of
        [] \<Rightarrow> None
      | g # gs \<Rightarrow> Some ((g # gs) ! (firstGroup e (g # gs) mod length (g # gs))))"

text \<open>\<^verbatim>\<open>select votes from "categoryVotes" where "UUID" = ? and category = ?\<close>\<close>

definition categoryVotesOf :: "store \<Rightarrow> string \<Rightarrow> string \<Rightarrow> int option" where
  "categoryVotesOf st u c =
     map_option cv_votes (find (\<lambda>r. cv_UUID r = u \<and> cv_category r = c) (categoryVotes st))"

definition addCategoryVotes :: "string \<Rightarrow> string \<Rightarrow> int \<Rightarrow> store \<Rightarrow> store" where
  "addCategoryVotes u c n st =
     st\<lparr>categoryVotes :=
          map (\<lambda>r. if cv_UUID r = u \<and> cv_category r = c then r\<lparr>cv_votes := cv_votes r + n\<rparr> else r)
            (categoryVotes st)\<rparr>"

definition insertCategoryVotes :: "string \<Rightarrow> string \<Rightarrow> int \<Rightarrow> store \<Rightarrow> store" where
  "insertCategoryVotes u c n st =
     st\<lparr>categoryVotes := categoryVotes st @ [\<lparr>cv_UUID = u, cv_category = c, cv_votes = n\<rparr>]\<rparr>"

definition insertPrivateCategoryVote ::
  "string \<Rightarrow> string \<Rightarrow> string \<Rightarrow> string \<Rightarrow> int \<Rightarrow> store \<Rightarrow> store" where
  "insertPrivateCategoryVote u usr ip c t st =
     st\<lparr>privateCategoryVotes := privateCategoryVotes st @
          [\<lparr>pcv_UUID = u, pcv_userID = usr, pcv_hashedIP = ip, pcv_category = c,
            pcv_timeSubmitted = t\<rparr>]\<rparr>"

definition updatePrivateCategoryVote ::
  "string \<Rightarrow> string \<Rightarrow> string \<Rightarrow> string \<Rightarrow> int \<Rightarrow> store \<Rightarrow> store" where
  "updatePrivateCategoryVote u usr ip c t st =
     st\<lparr>privateCategoryVotes :=
          map (\<lambda>r. if pcv_userID r = usr \<and> pcv_UUID r = u
                    then r\<lparr>pcv_category := c, pcv_timeSubmitted := t, pcv_hashedIP := ip\<rparr>
                    else r)
            (privateCategoryVotes st)\<rparr>"

text \<open>
  \<^verbatim>\<open>SELECT "videoID", "category" FROM "lockCategories" WHERE "videoID" = ? AND
  "service" = ? AND "category" = ?\<close>
\<close>

definition categoryLocked :: "store \<Rightarrow> string \<Rightarrow> string \<Rightarrow> string \<Rightarrow> bool" where
  "categoryLocked st vid svc c =
     list_ex (\<lambda>r. lc_videoID r = vid \<and> lc_service r = svc \<and> lc_category r = c)
       (lockCategories st)"

text \<open>The same with \<^verbatim>\<open>AND "actionType" = ?\<close>, for the segment's own category.\<close>

definition isVideoLocked :: "store \<Rightarrow> segment \<Rightarrow> bool" where
  "isVideoLocked st seg =
     list_ex (\<lambda>r. lc_videoID r = videoID seg \<and> lc_service r = service seg
                 \<and> lc_category r = category seg \<and> lc_actionType r = actionType seg)
       (lockCategories st)"

text \<open>\<^verbatim>\<open>SELECT "type" FROM "votes" WHERE "userID" = ? AND "UUID" = ?\<close>\<close>

definition getVotesRow :: "store \<Rightarrow> string \<Rightarrow> string \<Rightarrow> voteRow option" where
  "getVotesRow st usr u = find (\<lambda>r. v_userID r = usr \<and> v_UUID r = u) (privateVotes st)"

text \<open>
  The reputation gate: \<^verbatim>\<open>SELECT "userID" FROM "sponsorTimes" WHERE "userID" = ? AND
  "category" = ? AND "votes" > -2 AND "hidden" = 0 AND "shadowHidden" = 0 LIMIT 1\<close>
\<close>

definition hasCountedSubmission :: "store \<Rightarrow> string \<Rightarrow> string \<Rightarrow> bool" where
  "hasCountedSubmission st usr c =
     list_ex (\<lambda>s. userID s = usr \<and> category s = c \<and> votes s > - 2 \<and> hidden s = 0
                 \<and> shadowHidden s = 0)
       (sponsorTimes st)"

text \<open>
  The same-IP guard: \<^verbatim>\<open>SELECT "UUID" FROM "votes" WHERE "UUID" = ? AND "hashedIP" = ?
  AND "userID" != ?\<close>
\<close>

definition otherVoteFromIP :: "store \<Rightarrow> string \<Rightarrow> string \<Rightarrow> string \<Rightarrow> bool" where
  "otherVoteFromIP st u ip usr =
     list_ex (\<lambda>r. v_UUID r = u \<and> v_hashedIP r = ip \<and> v_userID r \<noteq> usr) (privateVotes st)"

text \<open>
  \<^verbatim>\<open>SELECT "reason" FROM warnings WHERE "userID" = ? AND "issueTime" > ? AND
  enabled = 1 AND type = 0\<close>, with the bound \<^verbatim>\<open>Math.floor(now -
  config.hoursAfterWarningExpires * MILLISECONDS_IN_HOUR)\<close>; on integers the floor
  changes nothing. The query has no \<^verbatim>\<open>ORDER BY\<close>: rows come in storage order.
\<close>

definition MILLISECONDS_IN_HOUR :: int where
  "MILLISECONDS_IN_HOUR = 3600000"

definition activeWarnings :: "env \<Rightarrow> store \<Rightarrow> string \<Rightarrow> string list" where
  "activeWarnings e st usr =
     map w_reason
       (filter (\<lambda>w. w_userID w = usr
                    \<and> w_issueTime w > now e - hoursAfterWarningExpires e * MILLISECONDS_IN_HOUR
                    \<and> w_enabled w = 1 \<and> w_type w = 0)
          (warnings st))"

section \<open>Video duration helpers\<close>

definition videoDurationChanged :: "real \<Rightarrow> real \<Rightarrow> bool" where
  "videoDurationChanged segmentDuration APIDuration =
     (APIDuration > 0 \<and> \<bar>segmentDuration - APIDuration\<bar> > 2)"

text \<open>
  \<^verbatim>\<open>apiVideoDetails?.page.filter((p) => p.cid == cid)[0].duration\<close>: undefined when
  there are no details (the service is not \<^verbatim>\<open>Service.YouTube\<close>, or the lookup gave
  nothing), a \<^verbatim>\<open>TypeError\<close> when no page has the segment's \<^verbatim>\<open>cid\<close>.
\<close>

datatype apiDuration = ApiUndefined | ApiTypeError | ApiDuration real

definition apiVideoDuration :: "env \<Rightarrow> segment \<Rightarrow> apiDuration" where
  "apiVideoDuration e s =
     (case (if service s = ''YouTube'' then getVideoDetails e (videoID s) else None) of
        None \<Rightarrow> ApiUndefined
      | Some pages \<Rightarrow>
          (case filter (\<lambda>p. fst p = cid s) pages of
             [] \<Rightarrow> ApiTypeError
           | p # ps \<Rightarrow> ApiDuration (snd p)))"

text \<open>An awaited sequence of writes either went through or rejected part-way.\<close>

datatype progress = Rejected store | Continue store

definition storeOf :: "progress \<Rightarrow> store" where
  "storeOf pr = (case pr of Rejected s \<Rightarrow> s | Continue s \<Rightarrow> s)"

text \<open>
  \<^verbatim>\<open>updateSegmentVideoDuration\<close>. A rejection of any of its awaited calls leaves the
  database as it was; the site \<open>DurationRefresh\<close> stands for all of them. Without a
  row the destructuring throws.
\<close>

definition updateSegmentVideoDuration :: "env \<Rightarrow> store \<Rightarrow> string \<Rightarrow> progress" where
  "updateSegmentVideoDuration e st u =
     (if throws e DurationRefresh then Rejected st
      else case getSegment st u of
        None \<Rightarrow> Rejected st
      | Some s \<Rightarrow>
          (case apiVideoDuration e s of
             ApiTypeError \<Rightarrow> Rejected st
           | ApiUndefined \<Rightarrow> Continue st
           | ApiDuration d \<Rightarrow>
               if videoDurationChanged (videoDuration s) d
               then Continue (updateSegment u (\<lambda>x. x\<lparr>videoDuration := d\<rparr>) st)
               else Continue st))"

text \<open>
  The latest submission of \<^verbatim>\<open>checkVideoDuration\<close>: \<^verbatim>\<open>ORDER BY "timeSubmitted" DESC
  LIMIT 1\<close> over the visible, counted, non-full segments of the video with a duration.
\<close>

definition latestSubmission :: "store \<Rightarrow> string \<Rightarrow> string \<Rightarrow> segment option" where
  "latestSubmission st vid svc =
     (case filter (\<lambda>s. videoID s = vid \<and> service s = svc \<and> hidden s = 0 \<and> shadowHidden s = 0
                       \<and> actionType s \<noteq> Full \<and> votes s > - 2 \<and> videoDuration s \<noteq> 0)
             (sponsorTimes st) of
        [] \<Rightarrow> None
      | r # rs \<Rightarrow> Some (foldl (\<lambda>b x. if timeSubmitted x > timeSubmitted b then x else b) r rs))"

text \<open>
  \<^verbatim>\<open>checkVideoDuration\<close> is started without \<^verbatim>\<open>await\<close> and its rejection is only logged.
  When the duration reported by the video API differs from the latest submission's, it
  hides the video's older segments and removes the video's lock categories.
\<close>

definition checkVideoDuration :: "env \<Rightarrow> store \<Rightarrow> string \<Rightarrow> store" where
  "checkVideoDuration e st u =
     (case getSegment st u of
        None \<Rightarrow> logError st
      | Some s \<Rightarrow>
          (case apiVideoDuration e s of
             ApiTypeError \<Rightarrow> logError st
           | ApiUndefined \<Rightarrow> st
           | ApiDuration d \<Rightarrow>
               (case latestSubmission st (videoID s) (service s) of
                  None \<Rightarrow> st
                | Some l \<Rightarrow>
                    if videoDurationChanged (videoDuration l) d
                    then st\<lparr>sponsorTimes :=
                              map (\<lambda>x. if videoID x = videoID s \<and> service x = service s
                                           \<and> timeSubmitted x \<le> timeSubmitted l
                                           \<and> hidden x = 0 \<and> shadowHidden x = 0
                                           \<and> actionType x \<noteq> Full \<and> votes x > - 2
                                        then x\<lparr>hidden := 1\<rparr> else x)
                                (sponsorTimes st),
                            lockCategories :=
                              deleteLockCategories e (videoID s) (service s) (lockCategories st)\<rparr>
                    else st)))"

section \<open>categoryVote\<close>

text \<open>
  The part of \<^verbatim>\<open>FinalResponse\<close> that is read; \<^verbatim>\<open>vote\<close> creates it with status 200
  and no message and only ever sets \<^verbatim>\<open>blockVote\<close>.
\<close>

record finalResponse =
  blockVote :: bool
  finalStatus :: nat
  finalMessage :: "string option"

definition categorySupported :: "env \<Rightarrow> string \<Rightarrow> ActionType \<Rightarrow> bool" where
  "categorySupported e c a =
     (case categorySupport e c of None \<Rightarrow> False | Some as \<Rightarrow> a \<in> set as)"

text \<open>\<^verbatim>\<open>const voteAmount = isVIP || isTempVIP ? 500 : 1\<close>\<close>

definition voteAmountOf :: "bool \<Rightarrow> bool \<Rightarrow> int" where
  "voteAmountOf vip tempVIP = (if vip \<or> tempVIP then 500 else 1)"

text \<open>
  Lines 215-255: credit the candidate category, then either move the user's earlier
  choice (debit it, re-point the private rows) or record a first choice.
\<close>

definition recordCategoryVote ::
  "env \<Rightarrow> store \<Rightarrow> string \<Rightarrow> string \<Rightarrow> string \<Rightarrow> string \<Rightarrow> int \<Rightarrow> (nat \<times> string) option \<Rightarrow> progress" where
  "recordCategoryVote e st u usr c ip voteAmount usersLastVoteInfo =
     (if throws e (CategoryStep 5) then Rejected st
      else if throws e (CategoryStep 6) then Rejected st
      else
        let st1 = (if categoryVotesOf st u c \<noteq> None
                   then addCategoryVotes u c voteAmount st
                   else insertCategoryVotes u c voteAmount st)
        in case usersLastVoteInfo of
             Some (n, previous) \<Rightarrow>
               if n > 0 then
                 (if throws e (CategoryStep 7) then Rejected st1
                  else
                    let st2 = addCategoryVotes u previous (- voteAmount) st1
                    in if throws e (CategoryStep 8) then Rejected st2
                       else Continue (updatePrivateCategoryVote u usr ip c (now e) st2))
               else
                 (if throws e (CategoryStep 9) then Rejected st1
                  else Continue (insertPrivateCategoryVote u usr ip c (now e) st1))
           | None \<Rightarrow>
               if throws e (CategoryStep 9) then Rejected st1
               else Continue (insertPrivateCategoryVote u usr ip c (now e) st1))"

text \<open>
  \<^verbatim>\<open>nextCategoryCount - currentCategoryCount >= Math.max(Math.ceil(submissionInfo?.votes
  / 2), 2)\<close>; without a submission row the right-hand side is \<^verbatim>\<open>NaN\<close> and the
  comparison is false.
\<close>

definition enoughCategoryVotes :: "int \<Rightarrow> int \<Rightarrow> segment option \<Rightarrow> bool" where
  "enoughCategoryVotes nextCategoryCount currentCategoryCount submissionInfo =
     (case submissionInfo of
        None \<Rightarrow> False
      | Some s \<Rightarrow>
          nextCategoryCount - currentCategoryCount \<ge> max \<lceil>real_of_int (votes s) / 2\<rceil> 2)"

text \<open>
  Lines 257-304: read the current category's aggregate, seed it with the submission's
  own vote when it has none, and replace the segment's category when the caller is
  privileged or the candidate is far enough ahead.
\<close>

definition decideCategory ::
  "env \<Rightarrow> store \<Rightarrow> string \<Rightarrow> segment \<Rightarrow> string \<Rightarrow> bool \<Rightarrow> bool \<Rightarrow> bool \<Rightarrow> int \<Rightarrow> int option \<Rightarrow> progress" where
  "decideCategory e st u segmentInfo c isVIP isTempVIP isOwnSubmission voteAmount nextCategoryInfo =
     (if throws e (CategoryStep 10) then Rejected st
      else
        let currentCategoryInfo = categoryVotesOf st u (category segmentInfo)
        in if throws e (CategoryStep 11) then Rejected st
        else
          let submissionInfo = getSegment st u
          in if submissionInfo \<noteq> None \<and> throws e (CategoryStep 12) then Rejected st
          else
            let isSubmissionVIP =
                  (case submissionInfo of None \<Rightarrow> False | Some s \<Rightarrow> isUserVIP e (userID s));
                startingVotes = (if isSubmissionVIP then 10000 else 1);
                currentCategoryCount =
                  (case currentCategoryInfo of None \<Rightarrow> startingVotes | Some v \<Rightarrow> v);
                seeded =
                  (case submissionInfo of
                     Some s \<Rightarrow>
                       if currentCategoryInfo = None then
                         (if throws e (CategoryStep 13) then Rejected st
                          else
                            let st1 = insertCategoryVotes u (category segmentInfo)
                                        currentCategoryCount st
                            in if throws e (CategoryStep 14) then Rejected st1
                               else Continue
                                 (insertPrivateCategoryVote u (userID s) ''unknown''
                                    (category segmentInfo) (timeSubmitted s) st1))
                       else Continue st
                   | None \<Rightarrow> Continue st);
                nextCategoryCount =
                  (case nextCategoryInfo of None \<Rightarrow> 0 | Some v \<Rightarrow> v) + voteAmount
            in case seeded of
                 Rejected s \<Rightarrow> Rejected s
               | Continue st2 \<Rightarrow>
                   if isVIP \<or> isTempVIP \<or> isOwnSubmission
                      \<or> enoughCategoryVotes nextCategoryCount currentCategoryCount submissionInfo
                   then (if throws e (CategoryStep 15) then Rejected st2
                         else Continue (updateSegment u (\<lambda>x. x\<lparr>category := c\<rparr>) st2))
                   else Continue st2)"

text \<open>
  \<^verbatim>\<open>categoryVote\<close>. The cache invalidation at its end (\<^verbatim>\<open>QueryCacher.clearSegmentCache\<close>)
  touches neither database and is left out.
\<close>

definition categoryVote ::
  "env \<Rightarrow> store \<Rightarrow> string \<Rightarrow> string \<Rightarrow> bool \<Rightarrow> bool \<Rightarrow> bool \<Rightarrow> string \<Rightarrow> string \<Rightarrow> finalResponse
     \<Rightarrow> outcome \<times> store" where
  "categoryVote e st u usr isVIP isTempVIP isOwnSubmission c ip fr =
     (if throws e (CategoryStep 1) then (Threw, st)
      else
        let usersLastVoteInfo = usersLastVote e st u usr
        in if map_option snd usersLastVoteInfo = Some c
           then (Returned (reply (finalStatus fr)), st)
        else if throws e (CategoryStep 2) then (Threw, st)
        else case getSegment st u of
          None \<Rightarrow> (Threw, st)
        | Some segmentInfo \<Rightarrow>
            if \<not> categorySupported e c (actionType segmentInfo) \<or> actionType segmentInfo = Full
            then (Returned (replyWith 400
                    (''Not allowed to change to '' @ c @ '' when for segment of type ''
                       @ actionTypeName (actionType segmentInfo))), st)
            else if c \<notin> set (categoryList e)
            then (Returned (replyWith 400 ''Category doesn't exist.''), st)
            else if throws e (CategoryStep 3) then (Threw, st)
            else if categoryLocked st (videoID segmentInfo) (service segmentInfo) c \<and> \<not> isVIP
            then (Returned (reply 200), st)
            else if \<not> isVIP \<and> locked segmentInfo = 1
            then (Returned (reply 200), st)
            else if throws e (CategoryStep 4) then (Threw, st)
            else
              let nextCategoryInfo = categoryVotesOf st u c;
                  voteAmount = voteAmountOf isVIP isTempVIP;
                  ableToVote = (finalStatus fr = 200)
              in if ableToVote then
                   (case recordCategoryVote e st u usr c ip voteAmount usersLastVoteInfo of
                      Rejected s \<Rightarrow> (Threw, s)
                    | Continue st1 \<Rightarrow>
                        (case decideCategory e st1 u segmentInfo c isVIP isTempVIP
                                isOwnSubmission voteAmount nextCategoryInfo of
                           Rejected s \<Rightarrow> (Threw, s)
                         | Continue st2 \<Rightarrow> (Returned (reply (finalStatus fr)), st2)))
                 else (Returned (reply (finalStatus fr)), st))"

section \<open>vote\<close>

text \<open>
  The \<^verbatim>\<open>type\<close> argument is \<^verbatim>\<open>undefined\<close> when the request has none, and otherwise
  what \<^verbatim>\<open>parseInt\<close> made of it: \<^verbatim>\<open>NaN\<close> or an integer.
\<close>

datatype jsnum = Undefined | NaN | Num int

definition truthyNum :: "jsnum \<Rightarrow> bool" where
  "truthyNum t = (case t of Num n \<Rightarrow> n \<noteq> 0 | _ \<Rightarrow> False)"

definition truthyCategory :: "string option \<Rightarrow> bool" where
  "truthyCategory c = (case c of None \<Rightarrow> False | Some s \<Rightarrow> s \<noteq> [])"

text \<open>
  The values \<^verbatim>\<open>vote\<close> has resolved once it holds the lock and the segment: the three
  identities, the trust flags, the segment row read at the start, and the closure that
  releases the lock.
\<close>

record voter =
  segUUID :: string
  voterID :: string
  nonAnonUserID :: string
  hashedIP :: string
  isVIP :: bool
  isTempVIP :: bool
  isOwnSubmission :: bool
  segmentInfo :: segment
  lock :: release

definition privileged :: "voter \<Rightarrow> bool" where
  "privileged c = (isVIP c \<or> isTempVIP c \<or> isOwnSubmission c)"

text \<open>
  Lines 427-443. \<open>None\<close>: the lock-category query rejected. It is only awaited when the
  segment itself is not locked.
\<close>

definition blockCheck :: "env \<Rightarrow> store \<Rightarrow> voter \<Rightarrow> jsnum \<Rightarrow> bool option" where
  "blockCheck e st c t =
     (if \<not> isVIP c \<and> (t \<noteq> Num 1 \<or> votes (segmentInfo c) \<le> - 2) then
        (if locked (segmentInfo c) \<noteq> 0 then Some True
         else if throws e VideoLockQuery then None
         else Some (isVideoLocked st (segmentInfo c)))
      else Some False)"

text \<open>Lines 445-456: the early replies on a segment that is already voted down.\<close>

definition deadSegmentReply :: "voter \<Rightarrow> jsnum \<Rightarrow> response option" where
  "deadSegmentReply c t =
     (case t of
        Num n \<Rightarrow>
          if votes (segmentInfo c) \<le> - 2 \<and> actionType (segmentInfo c) \<noteq> Full \<and> \<not> privileged c
          then (if n = 1
                then Some (replyWith 403
                  ''Not allowed to upvote segment with too many downvotes unless you are VIP.'')
                else if n = 0 then Some (reply 200)
                else None)
          else None
      | _ \<Rightarrow> None)"

text \<open>\<^verbatim>\<open>voteTypes.normal\<close> is 0 and \<^verbatim>\<open>voteTypes.incorrect\<close> is 1.\<close>

definition voteTypeEnum :: "jsnum \<Rightarrow> nat" where
  "voteTypeEnum t = (if t = Num 0 \<or> t = Num 1 \<or> t = Num 20 then 0 else 1)"

text \<open>
  Lines 477-491, with \<^verbatim>\<open>VoteType\<close>: Downvote 0, Upvote 1, ExtraDownvote 2, Undo 20,
  Malicious 30. \<open>None\<close> is the unrecognised type.
\<close>

definition incrementAmountOf :: "int \<Rightarrow> int option" where
  "incrementAmountOf n =
     (if n = 1 then Some 1
      else if n = 0 \<or> n = 30 then Some (- 1)
      else if n = 20 then Some 0
      else None)"

text \<open>Lines 492-511: what the stored vote row contributed.\<close>

definition oldIncrementAmountOf :: "voteRow option \<Rightarrow> int" where
  "oldIncrementAmountOf votesRow =
     (case votesRow of
        None \<Rightarrow> 0
      | Some r \<Rightarrow>
          if v_type r = 1 then 1
          else if v_type r = 0 then - 1
          else if v_type r = 2 then - 4
          else if v_type r = 20 then 0
          else if v_type r < 0 then v_type r
          else if v_type r = 12 then - 500
          else if v_type r = 13 then 500
          else 0)"

text \<open>
  Lines 513-523: the amplification of a privileged downvote and the capped malicious
  vote. The result is the pair of \<^verbatim>\<open>incrementAmount\<close> and the reassigned \<^verbatim>\<open>type\<close>.
\<close>

definition amplify :: "voter \<Rightarrow> int \<Rightarrow> int \<Rightarrow> int \<Rightarrow> int \<times> int" where
  "amplify c n incrementAmount oldIncrementAmount =
     (let (inc1, type1) =
            (if privileged c \<and> incrementAmount < 0
             then (- (votes (segmentInfo c) + 2 - oldIncrementAmount),
                   - (votes (segmentInfo c) + 2 - oldIncrementAmount))
             else (incrementAmount, n))
      in if type1 = 30
         then (- (min (votes (segmentInfo c) + 2 - oldIncrementAmount) 5),
               - (min (votes (segmentInfo c) + 2 - oldIncrementAmount) 5))
         else (inc1, type1))"

text \<open>
  Lines 527-545. \<open>None\<close>: one of the two awaited queries rejected. The reputation query
  is awaited only when the tests before it hold, the same-IP query only when the
  reputation query found a row.
\<close>

definition ableToVote ::
  "env \<Rightarrow> store \<Rightarrow> voter \<Rightarrow> finalResponse \<Rightarrow> int \<Rightarrow> int \<Rightarrow> int \<Rightarrow> bool option" where
  "ableToVote e st c fr originalType incrementAmount oldIncrementAmount =
     (if isVIP c \<or> isTempVIP c then Some True
      else if \<not> (isOwnSubmission c \<and> incrementAmount > 0 \<and> oldIncrementAmount \<ge> 0)
              \<and> \<not> (originalType = 30 \<and> actionType (segmentInfo c) \<noteq> Chapter)
              \<and> \<not> blockVote fr
              \<and> finalStatus fr = 200
      then (if throws e ReputationQuery then None
            else if hasCountedSubmission st (nonAnonUserID c) (category (segmentInfo c))
            then (if throws e SameIPQuery then None
                  else Some (\<not> otherVoteFromIP st (segUUID c) (hashedIP c) (voterID c)))
            else Some False)
      else Some False)"

text \<open>Lines 548-562: update the user's row when there is one, insert one otherwise.\<close>

definition upsertVote :: "voter \<Rightarrow> voteRow option \<Rightarrow> int \<Rightarrow> int \<Rightarrow> store \<Rightarrow> store" where
  "upsertVote c votesRow newType originalType st =
     (case votesRow of
        Some r \<Rightarrow>
          st\<lparr>privateVotes :=
               map (\<lambda>x. if v_userID x = voterID c \<and> v_UUID x = segUUID c
                         then x\<lparr>v_type := newType, v_originalType := originalType\<rparr> else x)
                 (privateVotes st)\<rparr>
      | None \<Rightarrow>
          st\<lparr>privateVotes := privateVotes st @
               [\<lparr>v_UUID = segUUID c, v_userID = voterID c, v_hashedIP = hashedIP c,
                 v_type = newType, v_normalUserID = nonAnonUserID c,
                 v_originalType = originalType\<rparr>]\<rparr>)"

text \<open>
  Lines 570-586: a temp-VIP's positive normal vote unhides the segment; a VIP's positive
  normal vote refreshes the duration, locks and unhides it; a VIP's other normal votes
  unlock it.
\<close>

definition tierSideEffects :: "env \<Rightarrow> store \<Rightarrow> voter \<Rightarrow> nat \<Rightarrow> int \<Rightarrow> progress" where
  "tierSideEffects e st2 c kind incrementAmount =
     (case (if isTempVIP c \<and> incrementAmount > 0 \<and> kind = 0
            then (if throws e UnhideUpdate then Rejected st2
                  else Continue (updateSegment (segUUID c) (\<lambda>x. x\<lparr>hidden := 0\<rparr>) st2))
            else Continue st2) of
        Rejected s \<Rightarrow> Rejected s
      | Continue st3 \<Rightarrow>
          if isVIP c \<and> incrementAmount > 0 \<and> kind = 0 then
            (case updateSegmentVideoDuration e st3 (segUUID c) of
               Rejected s \<Rightarrow> Rejected s
             | Continue st4 \<Rightarrow>
                 if throws e LockUpdate then Rejected st4
                 else Continue
                   (updateSegment (segUUID c)
                      (\<lambda>x. x\<lparr>locked := 1, hidden := 0, shadowHidden := 0\<rparr>) st4))
          else if isVIP c \<and> incrementAmount \<le> 0 \<and> kind = 0 then
            (if throws e LockUpdate then Rejected st3
             else Continue (updateSegment (segUUID c) (\<lambda>x. x\<lparr>locked := 0\<rparr>) st3))
          else Continue st3)"

text \<open>
  Lines 547-589, the writes of an eligible vote. The cache invalidation of line 588
  touches neither database and is left out.
\<close>

definition applyVote ::
  "env \<Rightarrow> store \<Rightarrow> voter \<Rightarrow> voteRow option \<Rightarrow> int \<Rightarrow> nat \<Rightarrow> int \<Rightarrow> int \<Rightarrow> int \<Rightarrow> progress" where
  "applyVote e st c votesRow originalType kind newType incrementAmount oldIncrementAmount =
     (if throws e VoteUpsert then Rejected st
      else
        let st1 = upsertVote c votesRow newType originalType st
        in if throws e VotesUpdate then Rejected st1
           else tierSideEffects e
                  (updateSegment (segUUID c)
                     (\<lambda>x. x\<lparr>votes := votes x + (incrementAmount - oldIncrementAmount)\<rparr>) st1)
                  c kind incrementAmount)"

text \<open>
  The body of the \<^verbatim>\<open>try\<close> block (lines 467-593): \<open>Raised\<close> is a rejection on its way
  to the \<^verbatim>\<open>catch\<close>, \<open>Finished\<close> a \<^verbatim>\<open>return\<close> (each of the two calls \<^verbatim>\<open>lock.unlock()\<close>
  first).
\<close>

datatype attempt = Raised store | Finished response store

definition attemptStore :: "attempt \<Rightarrow> store" where
  "attemptStore a = (case a of Raised s \<Rightarrow> s | Finished r s \<Rightarrow> s)"

definition finalReply :: "finalResponse \<Rightarrow> response" where
  "finalReply fr = \<lparr>status = finalStatus fr, message = finalMessage fr, json = None\<rparr>"

definition tryVote :: "env \<Rightarrow> store \<Rightarrow> voter \<Rightarrow> finalResponse \<Rightarrow> jsnum \<Rightarrow> attempt" where
  "tryVote e st c fr t =
     (if throws e VotesRowQuery then Raised st
      else
        let votesRow = getVotesRow st (voterID c) (segUUID c);
            unrecognised = Finished (reply 400) (unlock e (lock c) st)
        in case t of
             Num n \<Rightarrow>
               (case incrementAmountOf n of
                  None \<Rightarrow> unrecognised
                | Some incrementAmount0 \<Rightarrow>
                    let oldIncrementAmount = oldIncrementAmountOf votesRow;
                        (incrementAmount, newType) =
                          amplify c n incrementAmount0 oldIncrementAmount
                    in (case ableToVote e st c fr n incrementAmount oldIncrementAmount of
                          None \<Rightarrow> Raised st
                        | Some False \<Rightarrow> Finished (finalReply fr) (unlock e (lock c) st)
                        | Some True \<Rightarrow>
                            (case applyVote e st c votesRow n (voteTypeEnum t) newType
                                    incrementAmount oldIncrementAmount of
                               Rejected s \<Rightarrow> Raised s
                             | Continue s \<Rightarrow> Finished (finalReply fr) (unlock e (lock c) s))))
           | _ \<Rightarrow> unrecognised)"

text \<open>The \<^verbatim>\<open>try\<close> block with its \<^verbatim>\<open>catch\<close> (lines 594-599).\<close>

definition catchVote ::
  "env \<Rightarrow> store \<Rightarrow> voter \<Rightarrow> finalResponse \<Rightarrow> jsnum \<Rightarrow> outcome \<times> store" where
  "catchVote e st c fr t =
     (case tryVote e st c fr t of
        Finished r s \<Rightarrow> (Returned r, s)
      | Raised s \<Rightarrow>
          (Returned \<lparr>status = 500, message = finalMessage fr,
                     json = Some ''Internal error creating segment vote''\<rparr>,
           logError (unlock e (lock c) s)))"

definition firesDurationCheck :: "jsnum \<Rightarrow> bool" where
  "firesDurationCheck t = (case t of Num n \<Rightarrow> n \<le> 0 | _ \<Rightarrow> False)"

text \<open>
  The numeric pipeline, lines 427-600. The detached \<^verbatim>\<open>checkVideoDuration\<close> of line 463
  runs beside the rest of the request; the model lets it take effect after the reply
  is made.
\<close>

definition numericVote ::
  "env \<Rightarrow> store \<Rightarrow> voter \<Rightarrow> finalResponse \<Rightarrow> jsnum \<Rightarrow> outcome \<times> store" where
  "numericVote e st c fr t =
     (case blockCheck e st c t of
        None \<Rightarrow> (Threw, st)
      | Some blocked \<Rightarrow>
          let fr1 = (if blocked then fr\<lparr>blockVote := True\<rparr> else fr)
          in (case deadSegmentReply c t of
                Some r \<Rightarrow> (Returned r, unlock e (lock c) st)
              | None \<Rightarrow>
                  let (out, st1) = catchVote e st c fr1 t
                  in (out, if firesDurationCheck t then checkVideoDuration e st1 (segUUID c)
                           else st1)))"

definition warningMessage :: "string \<Rightarrow> string" where
  "warningMessage warningReason =
     ''Vote rejected due to a tip from a moderator. This means that we noticed you were making some common mistakes that are not malicious, and we just want to clarify the rules. ''
     @ ''Could you please send a message in Discord or Matrix so we can further help you?''
     @ (if length warningReason > 0
        then '' Tip message: '' @ [CHR 0x27] @ warningReason @ [CHR 0x27]
        else [])"

definition initialResponse :: finalResponse where
  "initialResponse = \<lparr>blockVote = False, finalStatus = 200, finalMessage = None\<rparr>"

definition lockKey :: "string \<Rightarrow> string \<Rightarrow> string" where
  "lockKey u paramUserID = ''voteOnSponsorTime:'' @ u @ ''.'' @ paramUserID"

text \<open>
  Lines 352-356 and 379-384: the three hashed identities and the trust flags of the
  caller on the segment that was loaded.
\<close>

definition voterOf :: "env \<Rightarrow> string \<Rightarrow> string \<Rightarrow> string \<Rightarrow> segment \<Rightarrow> release \<Rightarrow> voter" where
  "voterOf e ip u paramUserID seg r =
     \<lparr>segUUID = u,
      voterID = getHashCache e (paramUserID @ u),
      nonAnonUserID = getHashCache e paramUserID,
      hashedIP = getHashCache e (ip @ globalSalt e),
      isVIP = isUserVIP e (getHashCache e paramUserID),
      isTempVIP = isUserTempVIP e (getHashCache e paramUserID) (videoID seg),
      isOwnSubmission = (getHashCache e paramUserID = userID seg),
      segmentInfo = seg,
      lock = r\<rparr>"

definition warned :: "env \<Rightarrow> store \<Rightarrow> string \<Rightarrow> bool" where
  "warned e st nonAnon =
     (int (length (activeWarnings e st nonAnon)) \<ge> maxNumberOfActiveWarnings e)"

text \<open>
  Lines 372-600, once the lock is held. The category vote is started without
  \<^verbatim>\<open>await\<close> and the lock is released at once; its promise is what \<^verbatim>\<open>vote\<close> returns.
  With no warning row, \<^verbatim>\<open>warnings[0]?.reason\<close> is undefined and reading its length
  throws, after the lock was released.
\<close>

definition voteLocked ::
  "env \<Rightarrow> store \<Rightarrow> release \<Rightarrow> string \<Rightarrow> string \<Rightarrow> string \<Rightarrow> jsnum \<Rightarrow> string option
     \<Rightarrow> outcome \<times> store" where
  "voteLocked e st r ip u paramUserID t cat =
     (if throws e LoadSegment then (Threw, st)
      else case getSegment st u of
        None \<Rightarrow> (Returned (reply 404), unlock e r st)
      | Some seg \<Rightarrow>
          if throws e TempVIPLookup \<or> throws e VIPLookup \<or> throws e BanLookup then (Threw, st)
          else
            let c = voterOf e ip u paramUserID seg r;
                isBanned = checkBanStatus e (nonAnonUserID c) (hashedIP c)
            in if t = Num 10 \<or> t = Num 11 then (Returned (reply 400), unlock e r st)
               else if throws e WarningsQuery then (Threw, st)
               else if warned e st (nonAnonUserID c) then
                 (case activeWarnings e st (nonAnonUserID c) of
                    [] \<Rightarrow> (Threw, unlock e r st)
                  | warningReason # rest \<Rightarrow>
                      (Returned (replyWith 403 (warningMessage warningReason)), unlock e r st))
               else if isBanned then (Returned (reply 200), unlock e r st)
               else if \<not> truthyNum t \<and> truthyCategory cat then
                 categoryVote e (unlock e r st) u (nonAnonUserID c) (isVIP c) (isTempVIP c)
                   (isOwnSubmission c) (the cat) (hashedIP c) initialResponse
               else numericVote e st c initialResponse t)"

text \<open>\<^verbatim>\<open>vote(ip, UUID, paramUserID, type, category)\<close>.\<close>

definition vote ::
  "env \<Rightarrow> store \<Rightarrow> string \<Rightarrow> string \<Rightarrow> string \<Rightarrow> jsnum \<Rightarrow> string option \<Rightarrow> outcome \<times> store" where
  "vote e st ip u paramUserID t cat =
     (if u = [] \<or> paramUserID = [] \<or> \<not> (t \<noteq> Undefined \<or> truthyCategory cat)
      then (Returned (reply 400), st)
      else if length paramUserID < minUserIDLength e then (Returned (reply 200), st)
      else case acquireLock e st (lockKey u paramUserID) of
             (NotAcquired, st1) \<Rightarrow> (Returned (replyWith 429 ''Vote already in progress''), st1)
           | (Held r, st1) \<Rightarrow> voteLocked e st1 r ip u paramUserID t cat)"

section \<open>Vocabulary of the properties\<close>

text \<open>No awaited call rejects.\<close>

definition noFaults :: "env \<Rightarrow> bool" where
  "noFaults e = (\<forall>s. \<not> throws e s)"

text \<open>The two databases hold the same rows.\<close>

definition sameTables :: "store \<Rightarrow> store \<Rightarrow> bool" where
  "sameTables st st' =
     (sponsorTimes st' = sponsorTimes st \<and> privateVotes st' = privateVotes st
      \<and> categoryVotes st' = categoryVotes st
      \<and> privateCategoryVotes st' = privateCategoryVotes st
      \<and> lockCategories st' = lockCategories st \<and> warnings st' = warnings st)"

text \<open>The \<^verbatim>\<open>votes\<close> column of a segment, and the type stored in a user's vote row.\<close>

definition votesOf :: "store \<Rightarrow> string \<Rightarrow> int option" where
  "votesOf st u = map_option votes (getSegment st u)"

definition storedTypeOf :: "store \<Rightarrow> string \<Rightarrow> string \<Rightarrow> int option" where
  "storedTypeOf st usr u = map_option v_type (getVotesRow st usr u)"

text \<open>
  Nothing was written to the private table \<^verbatim>\<open>votes\<close> and no segment's \<^verbatim>\<open>votes\<close>
  column changed.
\<close>

definition keepsVotes :: "store \<Rightarrow> store \<Rightarrow> bool" where
  "keepsVotes st st' =
     (privateVotes st' = privateVotes st
      \<and> map votes (sponsorTimes st') = map votes (sponsorTimes st)
      \<and> map UUID (sponsorTimes st') = map UUID (sponsorTimes st))"

text \<open>
  The request gets as far as the warning check of line 400: the parameters are there,
  the user id is long enough, the lock is acquired (closure \<open>r\<close>, store \<open>st1\<close>), the
  segment \<open>seg\<close> is found, the type is not 10 or 11, and none of the lookups on the way
  rejects.
\<close>

definition reachesWarningCheck ::
  "env \<Rightarrow> store \<Rightarrow> string \<Rightarrow> string \<Rightarrow> jsnum \<Rightarrow> string option \<Rightarrow> release \<Rightarrow> store \<Rightarrow> segment
     \<Rightarrow> bool" where
  "reachesWarningCheck e st u paramUserID t cat r st1 seg =
     (u \<noteq> [] \<and> paramUserID \<noteq> [] \<and> (t \<noteq> Undefined \<or> truthyCategory cat)
      \<and> minUserIDLength e \<le> length paramUserID
      \<and> acquireLock e st (lockKey u paramUserID) = (Held r, st1)
      \<and> \<not> throws e LoadSegment \<and> getSegment st1 u = Some seg
      \<and> \<not> throws e TempVIPLookup \<and> \<not> throws e VIPLookup \<and> \<not> throws e BanLookup
      \<and> t \<noteq> Num 10 \<and> t \<noteq> Num 11 \<and> \<not> throws e WarningsQuery)"

text \<open>The request gets past the warning check and the ban check (line 414).\<close>

definition reachesDispatch ::
  "env \<Rightarrow> store \<Rightarrow> string \<Rightarrow> string \<Rightarrow> string \<Rightarrow> jsnum \<Rightarrow> string option \<Rightarrow> release \<Rightarrow> store
     \<Rightarrow> segment \<Rightarrow> bool" where
  "reachesDispatch e st ip u paramUserID t cat r st1 seg =
     (reachesWarningCheck e st u paramUserID t cat r st1 seg
      \<and> \<not> warned e st1 (getHashCache e paramUserID)
      \<and> \<not> checkBanStatus e (getHashCache e paramUserID) (getHashCache e (ip @ globalSalt e)))"

text \<open>
  \<^verbatim>\<open>categoryVote\<close> gets as far as its \<^verbatim>\<open>ableToVote\<close> block with a true
  \<^verbatim>\<open>ableToVote\<close>: the query for the user's earlier choice does not return the
  candidate, the segment \<open>seg\<close> is found, the candidate is allowed for its action type and is a known
  category, and neither the candidate nor the segment is locked against the caller.
\<close>

definition categoryVoteEligible ::
  "env \<Rightarrow> store \<Rightarrow> string \<Rightarrow> string \<Rightarrow> bool \<Rightarrow> string \<Rightarrow> finalResponse \<Rightarrow> segment \<Rightarrow> bool" where
  "categoryVoteEligible e st u usr vip c fr seg =
     (map_option snd (usersLastVote e st u usr) \<noteq> Some c
      \<and> getSegment st u = Some seg
      \<and> categorySupported e c (actionType seg) \<and> actionType seg \<noteq> Full
      \<and> c \<in> set (categoryList e)
      \<and> (vip \<or> \<not> categoryLocked st (videoID seg) (service seg) c)
      \<and> (vip \<or> locked seg \<noteq> 1)
      \<and> finalStatus fr = 200)"



text \<open>
  The reading of the specification's "most recent warning": among the user's active
  warnings, the reason of the one with the greatest issue time.
\<close>

definition mostRecentWarningReason :: "env \<Rightarrow> store \<Rightarrow> string \<Rightarrow> string option" where
  "mostRecentWarningReason e st usr =
     (case filter (\<lambda>w. w_userID w = usr
                      \<and> w_issueTime w > now e - hoursAfterWarningExpires e * MILLISECONDS_IN_HOUR
                      \<and> w_enabled w = 1 \<and> w_type w = 0)
             (warnings st) of
        [] \<Rightarrow> None
      | w # ws \<Rightarrow>
          Some (w_reason (foldl (\<lambda>b x. if w_issueTime x > w_issueTime b then x else b) w ws)))"

section \<open>Example data\<close>

text \<open>
  A configuration, a hash that prefixes a mark, one VIP (raw id \<open>vip\<close>), one banned
  user (raw id \<open>ban\<close>), and a database of four segments: \<open>A\<close> (sponsor, 3 votes) and
  \<open>B\<close> (chapter, -14 votes) submitted by \<open>ann\<close>, \<open>C\<close> and \<open>D\<close> submitted by \<open>bob\<close>.
\<close>

definition env0 :: env where
  "env0 =
     \<lparr>minUserIDLength = 3, globalSalt = ''s'', hoursAfterWarningExpires = 24,
      maxNumberOfActiveWarnings = 1,
      categoryList = [''sponsor'', ''intro'', ''chapter''],
      categorySupport =
        (\<lambda>c. if c = ''sponsor'' \<or> c = ''intro'' then Some [Skip, Mute]
             else if c = ''chapter'' then Some [Chapter] else None),
      redisEnabled = True, redisSetThrows = False, redisDelFails = False,
      getHashCache = (\<lambda>s. CHR ''#'' # s),
      isUserVIP = (\<lambda>usr. usr = ''#vip''),
      isUserTempVIP = (\<lambda>usr vid. False),
      checkBanStatus = (\<lambda>usr ip. usr = ''#ban''),
      getVideoDetails = (\<lambda>vid. None),
      deleteLockCategories =
        (\<lambda>vid svc rows. filter (\<lambda>r. \<not> (lc_videoID r = vid \<and> lc_service r = svc)) rows),
      firstGroup = (\<lambda>groups. 0),
      now = 100000000,
      throws = (\<lambda>s. False)\<rparr>"

definition seg0 :: "string \<Rightarrow> string \<Rightarrow> int \<Rightarrow> string \<Rightarrow> ActionType \<Rightarrow> segment" where
  "seg0 u usr v c a =
     \<lparr>UUID = u, videoID = ''V'', cid = ''1'', service = ''YouTube'', userID = usr,
      timeSubmitted = 1000, votes = v, locked = 0, category = c, actionType = a,
      hidden = 0, shadowHidden = 0, videoDuration = 100\<rparr>"

definition store0 :: store where
  "store0 =
     \<lparr>sponsorTimes =
        [seg0 ''A'' ''#ann'' 3 ''sponsor'' Skip, seg0 ''B'' ''#ann'' (- 14) ''chapter'' Chapter,
         seg0 ''C'' ''#bob'' 0 ''chapter'' Chapter, seg0 ''D'' ''#bob'' 0 ''sponsor'' Skip],
      privateVotes = [], categoryVotes = [], privateCategoryVotes = [],
      lockCategories = [], warnings = [], redisKeys = [], unlockCalls = 0, errorLog = 0\<rparr>"


text \<open>
  The same database with three active warnings: two against \<open>wrn\<close>, the older one
  stored first, and one against the banned user.
\<close>

definition storeW :: store where
  "storeW =
     store0\<lparr>warnings :=
               [\<lparr>w_userID = ''#wrn'', w_issueTime = 99999000, w_enabled = 1, w_type = 0,
                 w_reason = ''old''\<rparr>,
                \<lparr>w_userID = ''#wrn'', w_issueTime = 99999500, w_enabled = 1, w_type = 0,
                 w_reason = ''new''\<rparr>,
                \<lparr>w_userID = ''#ban'', w_issueTime = 99999500, w_enabled = 1, w_type = 0,
                 w_reason = ''tip''\<rparr>]\<rparr>"

text \<open>
  Segment \<open>A\<close>; a store after the lock for \<open>A\<close> was taken by a user; a store where
  another user has voted on \<open>A\<close> from the same IP; and two environments in which one
  query rejects.
\<close>

definition segA :: segment where
  "segA = seg0 ''A'' ''#ann'' 3 ''sponsor'' Skip"

definition heldA :: "string \<Rightarrow> store \<Rightarrow> store" where
  "heldA usr st = st\<lparr>redisKeys := [lockKey ''A'' usr]\<rparr>"

definition storeIP :: store where
  "storeIP =
     store0\<lparr>privateVotes :=
               [\<lparr>v_UUID = ''A'', v_userID = ''#calA'', v_hashedIP = ''#ips'', v_type = 1,
                 v_normalUserID = ''#cal'', v_originalType = 1\<rparr>]\<rparr>"

definition envLoadFails :: env where
  "envLoadFails = env0\<lparr>throws := (\<lambda>s. s = LoadSegment)\<rparr>"

definition envRowFails :: env where
  "envRowFails = env0\<lparr>throws := (\<lambda>s. s = VotesRowQuery)\<rparr>"




text \<open>The VIP voting on \<open>A\<close>, and the row that the VIP's first downvote stores.\<close>

definition vipRowA :: voteRow where
  "vipRowA =
     \<lparr>v_UUID = ''A'', v_userID = ''#vipA'', v_hashedIP = ''#ips'', v_type = - 5,
      v_normalUserID = ''#vip'', v_originalType = 0\<rparr>"

definition vipOnA :: voter where
  "vipOnA = voterOf env0 ''ip'' ''A'' ''vip'' segA (DelKey (lockKey ''A'' ''vip''))"

section \<open>Properties of the lock\<close>

text \<open>
  C9: \<^verbatim>\<open>acquireLock\<close> reports a held lock with the do-nothing release whenever the
  backend is disabled or the set-if-absent call throws (the throw is logged once and
  nothing else changes); it takes the key and returns the release of that key when the
  call completes on an absent key; and it reports status false exactly when the backend
  is enabled, the call completes and the key is already present, leaving everything as
  it was. The release is best-effort: the do-nothing release changes neither the keys
  nor the log; the release of a key issues the \<^verbatim>\<open>DEL\<close>, which removes that key and no
  other, and a \<^verbatim>\<open>DEL\<close> that is rejected (which it is exactly when the backend fails
  it) is not passed on but logged once, the keys staying as they are. Every release returns, touches no table, and called again leaves the keys as
  its first call did; after a release whose \<^verbatim>\<open>DEL\<close> is not rejected the keys are as
  they were before the lock was taken.
\<close>

theorem acquireLock_fail_open:
  "(\<not> redisEnabled e \<or> redisSetThrows e \<longrightarrow> lockStatus (fst (acquireLock e st key)))
   \<and> (\<not> redisEnabled e \<longrightarrow> acquireLock e st key = (Held NoOp, st))
   \<and> (redisEnabled e \<and> redisSetThrows e \<longrightarrow>
        acquireLock e st key = (Held NoOp, st\<lparr>errorLog := Suc (errorLog st)\<rparr>))
   \<and> (redisEnabled e \<and> redisSetThrows e \<longrightarrow>
        errorLog (snd (acquireLock e st key)) = Suc (errorLog st))
   \<and> (redisEnabled e \<and> \<not> redisSetThrows e \<and> key \<notin> set (redisKeys st) \<longrightarrow>
        acquireLock e st key = (Held (DelKey key), st\<lparr>redisKeys := key # redisKeys st\<rparr>))
   \<and> (\<not> lockStatus (fst (acquireLock e st key))
        \<longleftrightarrow> redisEnabled e \<and> \<not> redisSetThrows e \<and> key \<in> set (redisKeys st))
   \<and> (\<not> lockStatus (fst (acquireLock e st key)) \<longrightarrow> snd (acquireLock e st key) = st)
   \<and> unlockCalls (unlock e r st) = Suc (unlockCalls st)
   \<and> sponsorTimes (unlock e r st) = sponsorTimes st
   \<and> privateVotes (unlock e r st) = privateVotes st
   \<and> sameTables st (unlock e r st)
   \<and> (r = NoOp \<longrightarrow>
        redisKeys (unlock e r st) = redisKeys st \<and> errorLog (unlock e r st) = errorLog st)
   \<and> (\<forall>k. redisDel e k st = None \<longleftrightarrow> redisDelFails e)
   \<and> (\<forall>k. r = DelKey k \<and> \<not> redisDelFails e \<longrightarrow>
          set (redisKeys (unlock e r st)) = set (redisKeys st) - {k}
        \<and> errorLog (unlock e r st) = errorLog st)
   \<and> (\<forall>k. r = DelKey k \<and> redisDelFails e \<longrightarrow>
          redisKeys (unlock e r st) = redisKeys st
        \<and> errorLog (unlock e r st) = Suc (errorLog st))
   \<and> redisKeys (unlock e r (unlock e r st)) = redisKeys (unlock e r st)
   \<and> (\<forall>r' st1. acquireLock e st key = (Held r', st1) \<and> \<not> redisDelFails e \<longrightarrow>
          redisKeys (unlock e r' st1) = redisKeys st)"
proof -
  have acquire:
    "\<not> redisEnabled e \<or> redisSetThrows e \<longrightarrow> lockStatus (fst (acquireLock e st key))"
    "\<not> redisEnabled e \<longrightarrow> acquireLock e st key = (Held NoOp, st)"
    "redisEnabled e \<and> redisSetThrows e \<longrightarrow>
       acquireLock e st key = (Held NoOp, st\<lparr>errorLog := Suc (errorLog st)\<rparr>)"
    "redisEnabled e \<and> redisSetThrows e \<longrightarrow>
       errorLog (snd (acquireLock e st key)) = Suc (errorLog st)"
    "redisEnabled e \<and> \<not> redisSetThrows e \<and> key \<notin> set (redisKeys st) \<longrightarrow>
       acquireLock e st key = (Held (DelKey key), st\<lparr>redisKeys := key # redisKeys st\<rparr>)"
    "\<not> lockStatus (fst (acquireLock e st key))
       \<longleftrightarrow> redisEnabled e \<and> \<not> redisSetThrows e \<and> key \<in> set (redisKeys st)"
    "\<not> lockStatus (fst (acquireLock e st key)) \<longrightarrow> snd (acquireLock e st key) = st"
    by (simp_all add: acquireLock_def lockStatus_def logError_def)
  have release:
    "unlockCalls (unlock e r st) = Suc (unlockCalls st)"
    "sponsorTimes (unlock e r st) = sponsorTimes st"
    "privateVotes (unlock e r st) = privateVotes st"
    "sameTables st (unlock e r st)"
    "r = NoOp \<longrightarrow>
       redisKeys (unlock e r st) = redisKeys st \<and> errorLog (unlock e r st) = errorLog st"
    "\<forall>k. redisDel e k st = None \<longleftrightarrow> redisDelFails e"
    "\<forall>k. r = DelKey k \<and> \<not> redisDelFails e \<longrightarrow>
         set (redisKeys (unlock e r st)) = set (redisKeys st) - {k}
       \<and> errorLog (unlock e r st) = errorLog st"
    "\<forall>k. r = DelKey k \<and> redisDelFails e \<longrightarrow>
         redisKeys (unlock e r st) = redisKeys st
       \<and> errorLog (unlock e r st) = Suc (errorLog st)"
    "redisKeys (unlock e r (unlock e r st)) = redisKeys (unlock e r st)"
    by (cases r; simp add: unlock_def redisDel_def logError_def sameTables_def Let_def)+
  have restore:
    "\<forall>r' st1. acquireLock e st key = (Held r', st1) \<and> \<not> redisDelFails e \<longrightarrow>
       redisKeys (unlock e r' st1) = redisKeys st"
    by (auto simp: acquireLock_def unlock_def redisDel_def logError_def Let_def split: if_splits)
  from acquire release restore show ?thesis
    by (intro conjI)
qed

text \<open>
  Three runs: the set-if-absent call throws and the lock is held all the same; the key
  is taken and the release removes it; the \<^verbatim>\<open>DEL\<close> is rejected, which is logged and
  leaves the key.
\<close>

theorem acquireLock_fail_open_witness:
  "redisEnabled (env0\<lparr>redisSetThrows := True\<rparr>)
   \<and> redisSetThrows (env0\<lparr>redisSetThrows := True\<rparr>)
   \<and> lockStatus (fst (acquireLock (env0\<lparr>redisSetThrows := True\<rparr>) store0 ''k''))
   \<and> errorLog (snd (acquireLock (env0\<lparr>redisSetThrows := True\<rparr>) store0 ''k''))
       = Suc (errorLog store0)
   \<and> redisEnabled env0 \<and> \<not> redisSetThrows env0 \<and> ''k'' \<notin> set (redisKeys store0)
   \<and> \<not> redisDelFails env0
   \<and> acquireLock env0 store0 ''k'' = (Held (DelKey ''k''), store0\<lparr>redisKeys := [''k'']\<rparr>)
   \<and> redisKeys (unlock env0 (DelKey ''k'') (store0\<lparr>redisKeys := [''k'']\<rparr>)) = []
   \<and> redisDelFails (env0\<lparr>redisDelFails := True\<rparr>)
   \<and> redisKeys (unlock (env0\<lparr>redisDelFails := True\<rparr>) (DelKey ''k'')
                   (store0\<lparr>redisKeys := [''k'']\<rparr>)) = [''k'']
   \<and> errorLog (unlock (env0\<lparr>redisDelFails := True\<rparr>) (DelKey ''k'')
                   (store0\<lparr>redisKeys := [''k'']\<rparr>)) = 1"
  using acquireLock_fail_open [of "env0\<lparr>redisSetThrows := True\<rparr>" store0 "''k''" NoOp]
        acquireLock_fail_open [of env0 store0 "''k''" "DelKey ''k''"]
        acquireLock_fail_open [of "env0\<lparr>redisDelFails := True\<rparr>"
                                 "store0\<lparr>redisKeys := [''k'']\<rparr>" "''k''" "DelKey ''k''"]
  by (simp add: env0_def store0_def acquireLock_def unlock_def redisDel_def lockStatus_def
        logError_def)

section \<open>Properties of categoryVote\<close>


lemma find_map_same: "(\<And>x. P (f x) = P x) \<Longrightarrow> find P (map f xs) = map_option f (find P xs)"
  by (induction xs) auto

lemma find_append_case:
  "find P (xs @ ys) = (case find P xs of Some x \<Rightarrow> Some x | None \<Rightarrow> find P ys)"
  by (induction xs) auto

lemma find_holds: "find P xs = Some x \<Longrightarrow> P x"
  by (induction xs) (auto split: if_splits)

lemma getSegment_UUID: "getSegment st u = Some s \<Longrightarrow> UUID s = u"
  unfolding getSegment_def by (rule find_holds [where P = "\<lambda>s. UUID s = u"])

lemma getSegment_updateSegment:
  assumes "\<And>x. UUID (f x) = UUID x"
  shows "getSegment (updateSegment u f st) u' =
           (if u' = u then map_option f (getSegment st u) else getSegment st u')"
proof -
  let ?g = "\<lambda>s. if UUID s = u then f s else s"
  have same: "\<And>x. (UUID (?g x) = u') = (UUID x = u')" using assms by simp
  have "getSegment (updateSegment u f st) u' = map_option ?g (getSegment st u')"
    unfolding getSegment_def updateSegment_def
    using find_map_same [of "\<lambda>s. UUID s = u'" ?g "sponsorTimes st"] same by simp
  moreover have "map_option ?g (getSegment st u') =
      (if u' = u then map_option f (getSegment st u) else getSegment st u')"
    by (cases "getSegment st u'") (auto dest: getSegment_UUID)
  ultimately show ?thesis by simp
qed

lemma categoryVotesOf_add:
  "categoryVotesOf (addCategoryVotes u c n st) u' c' =
     (if u' = u \<and> c' = c then map_option (\<lambda>v. v + n) (categoryVotesOf st u c)
      else categoryVotesOf st u' c')"
proof -
  let ?g = "\<lambda>r. if cv_UUID r = u \<and> cv_category r = c then r\<lparr>cv_votes := cv_votes r + n\<rparr> else r"
  let ?P = "\<lambda>r. cv_UUID r = u' \<and> cv_category r = c'"
  have "find ?P (map ?g (categoryVotes st)) = map_option ?g (find ?P (categoryVotes st))"
    by (rule find_map_same) simp
  then have "categoryVotesOf (addCategoryVotes u c n st) u' c'
      = map_option cv_votes (map_option ?g (find ?P (categoryVotes st)))"
    by (simp add: categoryVotesOf_def addCategoryVotes_def)
  also have "\<dots> = (if u' = u \<and> c' = c then map_option (\<lambda>v. v + n) (categoryVotesOf st u c)
      else categoryVotesOf st u' c')"
  proof (cases "find ?P (categoryVotes st)")
    case None
    then show ?thesis by (auto simp: categoryVotesOf_def)
  next
    case (Some a)
    then have "cv_UUID a = u' \<and> cv_category a = c'"
      by (rule find_holds [where P = ?P])
    with Some show ?thesis by (auto simp: categoryVotesOf_def)
  qed
  finally show ?thesis .
qed

lemma categoryVotesOf_insert:
  "categoryVotesOf (insertCategoryVotes u c n st) u' c' =
     (case categoryVotesOf st u' c' of
        Some v \<Rightarrow> Some v
      | None \<Rightarrow> if u' = u \<and> c' = c then Some n else None)"
  by (auto simp: categoryVotesOf_def insertCategoryVotes_def find_append_case
           split: option.splits)

lemma categoryVotesOf_private [simp]:
  "categoryVotesOf (insertPrivateCategoryVote u usr ip c t st) u' c' = categoryVotesOf st u' c'"
  "categoryVotesOf (updatePrivateCategoryVote u usr ip c t st) u' c' = categoryVotesOf st u' c'"
  "categoryVotesOf (updateSegment u f st) u' c' = categoryVotesOf st u' c'"
  by (simp_all add: categoryVotesOf_def insertPrivateCategoryVote_def
        updatePrivateCategoryVote_def updateSegment_def)

lemma getSegment_category_tables [simp]:
  "getSegment (insertPrivateCategoryVote u usr ip c t st) u' = getSegment st u'"
  "getSegment (updatePrivateCategoryVote u usr ip c t st) u' = getSegment st u'"
  "getSegment (addCategoryVotes u c n st) u' = getSegment st u'"
  "getSegment (insertCategoryVotes u c n st) u' = getSegment st u'"
  by (simp_all add: getSegment_def insertPrivateCategoryVote_def
        updatePrivateCategoryVote_def addCategoryVotes_def insertCategoryVotes_def)


lemma frame_addCategoryVotes [simp]:
  "sponsorTimes (addCategoryVotes u c n st) = sponsorTimes st"
  "privateVotes (addCategoryVotes u c n st) = privateVotes st"
  "privateCategoryVotes (addCategoryVotes u c n st) = privateCategoryVotes st"
  "lockCategories (addCategoryVotes u c n st) = lockCategories st"
  "warnings (addCategoryVotes u c n st) = warnings st"
  by (simp_all add: addCategoryVotes_def)

lemma frame_insertCategoryVotes [simp]:
  "sponsorTimes (insertCategoryVotes u c n st) = sponsorTimes st"
  "privateVotes (insertCategoryVotes u c n st) = privateVotes st"
  "privateCategoryVotes (insertCategoryVotes u c n st) = privateCategoryVotes st"
  "lockCategories (insertCategoryVotes u c n st) = lockCategories st"
  "warnings (insertCategoryVotes u c n st) = warnings st"
  by (simp_all add: insertCategoryVotes_def)

lemma frame_insertPrivateCategoryVote [simp]:
  "sponsorTimes (insertPrivateCategoryVote u usr ip c t st) = sponsorTimes st"
  "privateVotes (insertPrivateCategoryVote u usr ip c t st) = privateVotes st"
  "categoryVotes (insertPrivateCategoryVote u usr ip c t st) = categoryVotes st"
  "lockCategories (insertPrivateCategoryVote u usr ip c t st) = lockCategories st"
  "warnings (insertPrivateCategoryVote u usr ip c t st) = warnings st"
  "privateCategoryVotes (insertPrivateCategoryVote u usr ip c t st) =
     privateCategoryVotes st @
       [\<lparr>pcv_UUID = u, pcv_userID = usr, pcv_hashedIP = ip, pcv_category = c,
         pcv_timeSubmitted = t\<rparr>]"
  by (simp_all add: insertPrivateCategoryVote_def)

lemma frame_updatePrivateCategoryVote [simp]:
  "sponsorTimes (updatePrivateCategoryVote u usr ip c t st) = sponsorTimes st"
  "privateVotes (updatePrivateCategoryVote u usr ip c t st) = privateVotes st"
  "categoryVotes (updatePrivateCategoryVote u usr ip c t st) = categoryVotes st"
  "lockCategories (updatePrivateCategoryVote u usr ip c t st) = lockCategories st"
  "warnings (updatePrivateCategoryVote u usr ip c t st) = warnings st"
  "privateCategoryVotes (updatePrivateCategoryVote u usr ip c t st) =
     map (\<lambda>r. if pcv_userID r = usr \<and> pcv_UUID r = u
               then r\<lparr>pcv_category := c, pcv_timeSubmitted := t, pcv_hashedIP := ip\<rparr>
               else r)
       (privateCategoryVotes st)"
  by (simp_all add: updatePrivateCategoryVote_def)

lemma frame_updateSegment [simp]:
  "privateVotes (updateSegment u f st) = privateVotes st"
  "categoryVotes (updateSegment u f st) = categoryVotes st"
  "privateCategoryVotes (updateSegment u f st) = privateCategoryVotes st"
  "lockCategories (updateSegment u f st) = lockCategories st"
  "warnings (updateSegment u f st) = warnings st"
  "redisKeys (updateSegment u f st) = redisKeys st"
  "unlockCalls (updateSegment u f st) = unlockCalls st"
  "errorLog (updateSegment u f st) = errorLog st"
  by (simp_all add: updateSegment_def)

lemma noFaultsD: "noFaults e \<Longrightarrow> \<not> throws e s"
  by (simp add: noFaults_def)

lemma usersLastVote_in_groups:
  assumes "usersLastVote e st u usr = Some g"
  shows "g \<in> set (categoryGroups st u usr)"
proof (cases "categoryGroups st u usr")
  case Nil
  with assms show ?thesis by (simp add: usersLastVote_def)
next
  case (Cons a as)
  have "(a # as) ! (firstGroup e (a # as) mod length (a # as)) \<in> set (a # as)"
    by (rule nth_mem) simp
  with assms Cons show ?thesis by (simp add: usersLastVote_def)
qed

lemma usersLastVote_count_pos: "usersLastVote e st u usr = Some (n, p) \<Longrightarrow> 0 < n"
  by (drule usersLastVote_in_groups) (auto simp: categoryGroups_def filter_empty_conv)


lemma recordCategoryVote_effect:
  assumes nf: "noFaults e"
      and other: "map_option snd prior \<noteq> Some c"
      and pos: "\<forall>n p. prior = Some (n, p) \<longrightarrow> 0 < n"
  shows "\<exists>st1. recordCategoryVote e st u usr c ip w prior = Continue st1
           \<and> sponsorTimes st1 = sponsorTimes st
           \<and> lockCategories st1 = lockCategories st
           \<and> privateCategoryVotes st1 =
               (if prior = None
                then privateCategoryVotes (insertPrivateCategoryVote u usr ip c (now e) st)
                else privateCategoryVotes (updatePrivateCategoryVote u usr ip c (now e) st))
           \<and> (\<forall>c'. categoryVotesOf st1 u c' =
                 (if c' = c
                  then Some ((case categoryVotesOf st u c of None \<Rightarrow> 0 | Some v \<Rightarrow> v) + w)
                  else if map_option snd prior = Some c'
                  then map_option (\<lambda>v. v - w) (categoryVotesOf st u c')
                  else categoryVotesOf st u c'))"
proof (cases prior)
  case None
  then show ?thesis
    using nf
    by (simp add: recordCategoryVote_def noFaultsD Let_def categoryVotesOf_add
          categoryVotesOf_insert split: option.splits)
next
  case (Some a)
  obtain n p where a: "a = (n, p)" by (cases a)
  with Some pos have n: "0 < n" by simp
  from other Some a have pc: "p \<noteq> c" by auto
  show ?thesis
    using nf n pc Some a
    by (auto simp: recordCategoryVote_def noFaultsD Let_def categoryVotesOf_add
          categoryVotesOf_insert split: option.splits)
qed


lemma decideCategory_effect:
  assumes nf: "noFaults e"
      and seg: "getSegment st1 u = Some seg"
  shows "\<exists>st2. decideCategory e st1 u seg c vip tvip own w nextInfo = Continue st2
           \<and> (\<forall>c'. categoryVotesOf st2 u c' =
                 (case categoryVotesOf st1 u c' of
                    Some v \<Rightarrow> Some v
                  | None \<Rightarrow> if c' = category seg
                            then Some (if isUserVIP e (userID seg) then 10000 else 1)
                            else None))
           \<and> getSegment st2 u =
               Some (if vip \<or> tvip \<or> own
                        \<or> enoughCategoryVotes
                             ((case nextInfo of None \<Rightarrow> 0 | Some v \<Rightarrow> v) + w)
                             (case categoryVotesOf st1 u (category seg) of
                                None \<Rightarrow> (if isUserVIP e (userID seg) then 10000 else 1)
                              | Some v \<Rightarrow> v)
                             (Some seg)
                     then seg\<lparr>category := c\<rparr> else seg)
           \<and> privateCategoryVotes st2 =
               privateCategoryVotes st1 @
                 (if categoryVotesOf st1 u (category seg) = None
                  then [\<lparr>pcv_UUID = u, pcv_userID = userID seg, pcv_hashedIP = ''unknown'',
                         pcv_category = category seg, pcv_timeSubmitted = timeSubmitted seg\<rparr>]
                  else [])"
  using nf seg
  by (cases "categoryVotesOf st1 u (category seg)")
     (simp_all add: decideCategory_def noFaultsD Let_def categoryVotesOf_insert
        getSegment_updateSegment split: option.splits)


lemma getSegment_cong: "sponsorTimes a = sponsorTimes b \<Longrightarrow> getSegment a u = getSegment b u"
  by (simp add: getSegment_def)

lemma categoryVote_eligible_run:
  assumes elig: "categoryVoteEligible e st u usr vip c fr seg"
      and nf: "noFaults e"
      and rec: "recordCategoryVote e st u usr c ip (voteAmountOf vip tvip)
                  (usersLastVote e st u usr) = Continue st1"
      and dec: "decideCategory e st1 u seg c vip tvip own (voteAmountOf vip tvip)
                  (categoryVotesOf st u c) = Continue st2"
  shows "categoryVote e st u usr vip tvip own c ip fr = (Returned (reply 200), st2)"
  using elig nf rec dec
  by (auto simp: categoryVote_def categoryVoteEligible_def noFaultsD Let_def)

text \<open>
  C2: an eligible category vote that no rejection interrupts returns 200, and afterwards
  the segment carries the candidate category exactly when the caller is VIP, temp-VIP or
  the submitter, or the stored aggregate \<open>a\<close> of the candidate (its earlier value, or 0,
  plus the caller's weight) exceeds the stored aggregate \<open>b\<close> of the segment's category
  (seeded with 1, or 10000 for a VIP submitter, when it had no row) by at least
  \<open>max (ceil (votes / 2)) 2\<close>; otherwise it keeps its category.
\<close>

theorem categoryVote_flip_threshold:
  assumes elig: "categoryVoteEligible e st u usr vip c fr seg"
      and nf: "noFaults e"
  shows "\<exists>st' a b.
           categoryVote e st u usr vip tvip own c ip fr = (Returned (reply 200), st')
         \<and> categoryVotesOf st' u c = Some a
         \<and> categoryVotesOf st' u (category seg) = Some b
         \<and> a = (case categoryVotesOf st u c of None \<Rightarrow> 0 | Some v \<Rightarrow> v)
                 + (voteAmountOf vip tvip)
         \<and> (categoryVotesOf st u (category seg) = None \<and> category seg \<noteq> c
              \<longrightarrow> b = (if isUserVIP e (userID seg) then 10000 else 1))
         \<and> map_option category (getSegment st' u) =
             Some (if vip \<or> tvip \<or> own \<or> a - b \<ge> max \<lceil>real_of_int (votes seg) / 2\<rceil> 2
                   then c else category seg)"
proof -
  let ?w = "voteAmountOf vip tvip"
  let ?prior = "usersLastVote e st u usr"
  let ?seed = "if isUserVIP e (userID seg) then 10000 else (1::int)"
  from elig have other: "map_option snd ?prior \<noteq> Some c"
    and seg: "getSegment st u = Some seg"
    by (simp_all add: categoryVoteEligible_def)
  have pos: "\<forall>n p. ?prior = Some (n, p) \<longrightarrow> 0 < n"
    by (auto dest: usersLastVote_count_pos)
  obtain st1 where rec: "recordCategoryVote e st u usr c ip ?w ?prior = Continue st1"
    and sp1: "sponsorTimes st1 = sponsorTimes st"
    and cv1: "\<And>c'. categoryVotesOf st1 u c' =
                 (if c' = c
                  then Some ((case categoryVotesOf st u c of None \<Rightarrow> 0 | Some v \<Rightarrow> v) + ?w)
                  else if map_option snd ?prior = Some c'
                  then map_option (\<lambda>v. v - ?w) (categoryVotesOf st u c')
                  else categoryVotesOf st u c')"
    using recordCategoryVote_effect
            [where e = e and prior = ?prior and c = c and st = st and u = u and usr = usr
               and ip = ip and w = ?w, OF nf other pos]
    by blast
  from sp1 seg have seg1: "getSegment st1 u = Some seg"
    by (simp add: getSegment_cong [of st1 st])
  let ?cur = "case categoryVotesOf st1 u (category seg) of None \<Rightarrow> ?seed | Some v \<Rightarrow> v"
  let ?next = "(case categoryVotesOf st u c of None \<Rightarrow> 0 | Some v \<Rightarrow> v) + ?w"
  obtain st2 where dec: "decideCategory e st1 u seg c vip tvip own ?w (categoryVotesOf st u c)
                           = Continue st2"
    and cv2: "\<And>c'. categoryVotesOf st2 u c' =
                 (case categoryVotesOf st1 u c' of
                    Some v \<Rightarrow> Some v
                  | None \<Rightarrow> if c' = category seg then Some ?seed else None)"
    and seg2: "getSegment st2 u =
               Some (if vip \<or> tvip \<or> own \<or> enoughCategoryVotes ?next ?cur (Some seg)
                     then seg\<lparr>category := c\<rparr> else seg)"
    using decideCategory_effect
            [where c = c and vip = vip and tvip = tvip and own = own and w = ?w
               and nextInfo = "categoryVotesOf st u c", OF nf seg1]
    by blast
  have run: "categoryVote e st u usr vip tvip own c ip fr = (Returned (reply 200), st2)"
    by (rule categoryVote_eligible_run [OF elig nf rec dec])
  define nxt where "nxt = ?next"
  define cur where "cur = ?cur"
  have a: "categoryVotesOf st2 u c = Some nxt"
    by (simp add: cv2 cv1 nxt_def)
  have b: "categoryVotesOf st2 u (category seg) = Some cur"
    by (simp add: cv2 cur_def split: option.splits)
  have a_eq: "nxt = (case categoryVotesOf st u c of None \<Rightarrow> 0 | Some v \<Rightarrow> v)
                 + (voteAmountOf vip tvip)"
    by (simp add: nxt_def)
  have seedb: "categoryVotesOf st u (category seg) = None \<and> category seg \<noteq> c \<longrightarrow> cur = ?seed"
    by (simp add: cv1 cur_def)
  have seg2': "getSegment st2 u =
      Some (if vip \<or> tvip \<or> own \<or> enoughCategoryVotes nxt cur (Some seg)
            then seg\<lparr>category := c\<rparr> else seg)"
    using seg2 by (simp only: nxt_def cur_def)
  have flip: "map_option category (getSegment st2 u) =
      Some (if vip \<or> tvip \<or> own \<or> nxt - cur \<ge> max \<lceil>real_of_int (votes seg) / 2\<rceil> 2
            then c else category seg)"
    by (simp add: seg2' enoughCategoryVotes_def)
  show ?thesis
    by (intro exI [of _ st2] exI [of _ nxt] exI [of _ cur] conjI run a b a_eq seedb flip)
qed










lemma noFaults_env0: "noFaults env0"
  by (simp add: noFaults_def env0_def)

lemma store0_A: "getSegment store0 ''A'' = Some (seg0 ''A'' ''#ann'' 3 ''sponsor'' Skip)"
  by (simp add: getSegment_def store0_def seg0_def)

theorem categoryVote_flip_threshold_witness:
  "categoryVoteEligible env0 store0 ''A'' ''#bob'' False ''intro'' initialResponse
     (seg0 ''A'' ''#ann'' 3 ''sponsor'' Skip)
   \<and> noFaults env0
   \<and> map_option category
        (getSegment
           (snd (categoryVote env0 store0 ''A'' ''#bob'' False False False ''intro'' ''#ips''
                   initialResponse)) ''A'')
      = Some ''sponsor''"
proof -
  let ?seg = "seg0 ''A'' ''#ann'' 3 ''sponsor'' Skip"
  have elig: "categoryVoteEligible env0 store0 ''A'' ''#bob'' False ''intro'' initialResponse ?seg"
    by (simp add: categoryVoteEligible_def store0_A usersLastVote_def categoryGroups_def
          userCategoryRows_def categorySupported_def categoryLocked_def initialResponse_def)
       (simp add: store0_def env0_def seg0_def)
  have none: "categoryVotesOf store0 ''A'' ''intro'' = None"
             "categoryVotesOf store0 ''A'' ''sponsor'' = None"
    by (simp_all add: categoryVotesOf_def store0_def)
  from categoryVote_flip_threshold [OF elig noFaults_env0, of False False "''#ips''"]
  obtain st' a b where
      run: "categoryVote env0 store0 ''A'' ''#bob'' False False False ''intro'' ''#ips''
              initialResponse = (Returned (reply 200), st')"
    and a: "a = (case categoryVotesOf store0 ''A'' ''intro'' of None \<Rightarrow> 0 | Some v \<Rightarrow> v)
               + (voteAmountOf False False)"
    and b: "categoryVotesOf store0 ''A'' (category ?seg) = None \<and> category ?seg \<noteq> ''intro''
             \<longrightarrow> b = (if isUserVIP env0 (userID ?seg) then 10000 else 1)"
    and flip: "map_option category (getSegment st' ''A'') =
        Some (if False \<or> False \<or> False \<or> a - b \<ge> max \<lceil>real_of_int (votes ?seg) / 2\<rceil> 2
              then ''intro'' else category ?seg)"
    by blast
  from a none have a1: "a = 1" by (simp add: voteAmountOf_def)
  from b none have b1: "b = 1" by (simp add: seg0_def env0_def)
  from flip a1 b1 have "map_option category (getSegment st' ''A'') = Some ''sponsor''"
    by (simp add: seg0_def)
  with run elig noFaults_env0 show ?thesis by simp
qed






section \<open>Properties of vote\<close>


lemma acquireLock_tables:
  "acquireLock e st key = (l, st1) \<Longrightarrow> sameTables st st1"
  by (auto simp: acquireLock_def sameTables_def logError_def split: if_splits)

lemma unlock_tables: "sameTables st (unlock e r st1) = sameTables st st1"
  by (cases r) (simp_all add: unlock_def redisDel_def sameTables_def logError_def Let_def)

lemma vote_reaches_warning_check:
  assumes "reachesWarningCheck e st u p t cat r st1 seg"
  shows "vote e st ip u p t cat =
           (let c = voterOf e ip u p seg r
            in if warned e st1 (nonAnonUserID c) then
                 (case activeWarnings e st1 (nonAnonUserID c) of
                    [] \<Rightarrow> (Threw, unlock e r st1)
                  | warningReason # rest \<Rightarrow>
                      (Returned (replyWith 403 (warningMessage warningReason)), unlock e r st1))
               else if checkBanStatus e (nonAnonUserID c) (hashedIP c)
                 then (Returned (reply 200), unlock e r st1)
               else if \<not> truthyNum t \<and> truthyCategory cat then
                 categoryVote e (unlock e r st1) u (nonAnonUserID c) (isVIP c) (isTempVIP c)
                   (isOwnSubmission c) (the cat) (hashedIP c) initialResponse
               else numericVote e st1 c initialResponse t)"
  using assms
  by (simp add: vote_def voteLocked_def reachesWarningCheck_def Let_def)

lemma voterOf_simps [simp]:
  "segUUID (voterOf e ip u p seg r) = u"
  "voterID (voterOf e ip u p seg r) = getHashCache e (p @ u)"
  "nonAnonUserID (voterOf e ip u p seg r) = getHashCache e p"
  "hashedIP (voterOf e ip u p seg r) = getHashCache e (ip @ globalSalt e)"
  "segmentInfo (voterOf e ip u p seg r) = seg"
  "lock (voterOf e ip u p seg r) = r"
  by (simp_all add: voterOf_def)

lemma sameTables_refl [simp]: "sameTables st st"
  by (simp add: sameTables_def)

lemma sameTables_trans: "sameTables a b \<Longrightarrow> sameTables b c \<Longrightarrow> sameTables a c"
  by (simp add: sameTables_def)

lemma warned_tables: "sameTables st st1 \<Longrightarrow> warned e st1 usr = warned e st usr"
  by (simp add: sameTables_def warned_def activeWarnings_def)

lemma voteLocked_banned_tables:
  assumes "checkBanStatus e (getHashCache e p) (getHashCache e (ip @ globalSalt e))"
      and "\<not> warned e st (getHashCache e p)"
  shows "sameTables st (snd (voteLocked e st r ip u p t cat))"
  using assms
  by (cases "getSegment st u") (simp_all add: voteLocked_def Let_def unlock_tables)

text \<open>
  C7: for a banned user (by user id or by IP, as \<^verbatim>\<open>checkBanStatus\<close> reports) below the
  warning threshold, no call of \<^verbatim>\<open>vote\<close> changes either database, whatever its type,
  its category and whichever awaited call rejects; and when the request gets as far as
  the warning check, \<^verbatim>\<open>vote\<close> returns status 200 without a message, having only taken
  and released the lock: neither the category vote nor the numeric pipeline is run.
\<close>

theorem banned_vote_silently_dropped:
  assumes banned: "checkBanStatus e (getHashCache e p) (getHashCache e (ip @ globalSalt e))"
      and calm: "\<not> warned e st (getHashCache e p)"
  shows "sameTables st (snd (vote e st ip u p t cat))
         \<and> (reachesWarningCheck e st u p t cat r st1 seg \<longrightarrow>
              vote e st ip u p t cat = (Returned (reply 200), unlock e r st1))"
proof
  show "sameTables st (snd (vote e st ip u p t cat))"
  proof (cases "acquireLock e st (lockKey u p)")
    case (Pair l s1)
    then have same: "sameTables st s1" by (rule acquireLock_tables)
    show ?thesis
    proof (cases l)
      case NotAcquired
      with Pair same show ?thesis by (simp add: vote_def)
    next
      case (Held r')
      from calm same have "\<not> warned e s1 (getHashCache e p)"
        by (simp add: warned_tables)
      with banned have "sameTables s1 (snd (voteLocked e s1 r' ip u p t cat))"
        by (rule voteLocked_banned_tables)
      with same have "sameTables st (snd (voteLocked e s1 r' ip u p t cat))"
        by (rule sameTables_trans)
      with Pair Held show ?thesis by (simp add: vote_def)
    qed
  qed
next
  show "reachesWarningCheck e st u p t cat r st1 seg \<longrightarrow>
          vote e st ip u p t cat = (Returned (reply 200), unlock e r st1)"
  proof
    assume reach: "reachesWarningCheck e st u p t cat r st1 seg"
    then have "acquireLock e st (lockKey u p) = (Held r, st1)"
      by (simp add: reachesWarningCheck_def)
    then have "sameTables st st1" by (rule acquireLock_tables)
    with calm have "\<not> warned e st1 (getHashCache e p)"
      by (simp add: warned_tables)
    with banned show "vote e st ip u p t cat = (Returned (reply 200), unlock e r st1)"
      by (simp add: vote_reaches_warning_check [OF reach] Let_def)
  qed
qed

lemma activeWarnings_tables:
  "sameTables st st1 \<Longrightarrow> activeWarnings e st1 usr = activeWarnings e st usr"
  by (simp add: sameTables_def activeWarnings_def)

lemma voteLocked_warned_tables:
  assumes "warned e st (getHashCache e p)"
  shows "sameTables st (snd (voteLocked e st r ip u p t cat))"
  using assms
  by (cases "getSegment st u"; cases "activeWarnings e st (getHashCache e p)")
     (simp_all add: voteLocked_def Let_def unlock_tables)

text \<open>
  C4, as amended: for a user with at least \<^verbatim>\<open>maxNumberOfActiveWarnings\<close> enabled type-0
  warnings in the recency window, no call of \<^verbatim>\<open>vote\<close> changes either database; and
  when the request gets as far as the warning check and there is at least one such
  warning, \<^verbatim>\<open>vote\<close> returns status 403 with the fixed message, which ends with the
  reason of the first such warning in storage order when that reason is not empty, and
  the lock is released. The ban status plays no part: a banned and warned user gets
  the 403.
\<close>

theorem warned_vote_rejected:
  assumes many: "warned e st (getHashCache e p)"
  shows "sameTables st (snd (vote e st ip u p t cat))
         \<and> (reachesWarningCheck e st u p t cat r st1 seg
              \<and> activeWarnings e st (getHashCache e p) = w # ws \<longrightarrow>
              vote e st ip u p t cat =
                (Returned (replyWith 403 (warningMessage w)), unlock e r st1)
              \<and> (w \<noteq> [] \<longrightarrow>
                   (\<exists>pre. warningMessage w
                            = pre @ '' Tip message: '' @ [CHR 0x27] @ w @ [CHR 0x27])))"
proof
  show "sameTables st (snd (vote e st ip u p t cat))"
  proof (cases "acquireLock e st (lockKey u p)")
    case (Pair l s1)
    then have same: "sameTables st s1" by (rule acquireLock_tables)
    show ?thesis
    proof (cases l)
      case NotAcquired
      with Pair same show ?thesis by (simp add: vote_def)
    next
      case (Held r')
      from many same have "warned e s1 (getHashCache e p)"
        by (simp add: warned_tables)
      then have "sameTables s1 (snd (voteLocked e s1 r' ip u p t cat))"
        by (rule voteLocked_warned_tables)
      with same have "sameTables st (snd (voteLocked e s1 r' ip u p t cat))"
        by (rule sameTables_trans)
      with Pair Held show ?thesis by (simp add: vote_def)
    qed
  qed
next
  show "reachesWarningCheck e st u p t cat r st1 seg
          \<and> activeWarnings e st (getHashCache e p) = w # ws \<longrightarrow>
        vote e st ip u p t cat = (Returned (replyWith 403 (warningMessage w)), unlock e r st1)
        \<and> (w \<noteq> [] \<longrightarrow>
             (\<exists>pre. warningMessage w = pre @ '' Tip message: '' @ [CHR 0x27] @ w @ [CHR 0x27]))"
  proof (intro impI)
    assume a: "reachesWarningCheck e st u p t cat r st1 seg
                 \<and> activeWarnings e st (getHashCache e p) = w # ws"
    then have reach: "reachesWarningCheck e st u p t cat r st1 seg"
      and first: "activeWarnings e st (getHashCache e p) = w # ws"
      by simp_all
    from reach have "acquireLock e st (lockKey u p) = (Held r, st1)"
      by (simp add: reachesWarningCheck_def)
    then have same: "sameTables st st1" by (rule acquireLock_tables)
    from many same have many1: "warned e st1 (getHashCache e p)"
      by (simp add: warned_tables)
    from first same have first1: "activeWarnings e st1 (getHashCache e p) = w # ws"
      by (simp add: activeWarnings_tables)
    have run: "vote e st ip u p t cat =
        (Returned (replyWith 403 (warningMessage w)), unlock e r st1)"
      using first1 many1 by (simp add: vote_reaches_warning_check [OF reach] Let_def)
    have tip: "w \<noteq> [] \<longrightarrow>
        (\<exists>pre. warningMessage w = pre @ '' Tip message: '' @ [CHR 0x27] @ w @ [CHR 0x27])"
      by (simp add: warningMessage_def)
    from run tip show "vote e st ip u p t cat =
          (Returned (replyWith 403 (warningMessage w)), unlock e r st1)
        \<and> (w \<noteq> [] \<longrightarrow>
             (\<exists>pre. warningMessage w = pre @ '' Tip message: '' @ [CHR 0x27] @ w @ [CHR 0x27]))"
      by (rule conjI)
  qed
qed

lemma env0_lock:
  "acquireLock env0 (store0\<lparr>warnings := ws\<rparr>) key
     = (Held (DelKey key), store0\<lparr>warnings := ws, redisKeys := [key]\<rparr>)"
  by (simp add: acquireLock_def env0_def store0_def)

lemma storeW_reach:
  "reachesWarningCheck env0 storeW ''A'' usr (Num 1) None (DelKey (lockKey ''A'' usr))
     (storeW\<lparr>redisKeys := [lockKey ''A'' usr]\<rparr>) (seg0 ''A'' ''#ann'' 3 ''sponsor'' Skip)
   = (3 \<le> length usr)"
  by (simp add: reachesWarningCheck_def storeW_def env0_lock)
     (auto simp: env0_def getSegment_def store0_def seg0_def)

lemma storeW_active:
  "activeWarnings env0 (storeW\<lparr>redisKeys := ks\<rparr>) ''#wrn'' = [''old'', ''new'']"
  "activeWarnings env0 (storeW\<lparr>redisKeys := ks\<rparr>) ''#ban'' = [''tip'']"
  by (simp_all add: activeWarnings_def storeW_def env0_def MILLISECONDS_IN_HOUR_def)

theorem warned_vote_rejected_witness:
  "warned env0 storeW (getHashCache env0 ''ban'')
   \<and> checkBanStatus env0 (getHashCache env0 ''ban'') (getHashCache env0 (''ip'' @ globalSalt env0))
   \<and> reachesWarningCheck env0 storeW ''A'' ''ban'' (Num 1) None (DelKey (lockKey ''A'' ''ban''))
       (heldA ''ban'' storeW) segA
   \<and> activeWarnings env0 storeW (getHashCache env0 ''ban'') = [''tip'']
   \<and> sameTables storeW (snd (vote env0 storeW ''ip'' ''A'' ''ban'' (Num 1) None))
   \<and> fst (vote env0 storeW ''ip'' ''A'' ''ban'' (Num 1) None)
       = Returned (replyWith 403 (warningMessage ''tip''))"
proof -
  have many: "warned env0 storeW (getHashCache env0 ''ban'')" by code_simp
  have banned: "checkBanStatus env0 (getHashCache env0 ''ban'')
      (getHashCache env0 (''ip'' @ globalSalt env0))"
    by code_simp
  have reach: "reachesWarningCheck env0 storeW ''A'' ''ban'' (Num 1) None
      (DelKey (lockKey ''A'' ''ban'')) (heldA ''ban'' storeW) segA"
    by code_simp
  have first: "activeWarnings env0 storeW (getHashCache env0 ''ban'') = [''tip'']"
    by code_simp
  from warned_vote_rejected
         [OF many, of "''ip''" "''A''" "Num 1" None "DelKey (lockKey ''A'' ''ban'')"
            "heldA ''ban'' storeW" segA "''tip''" "[]"]
       reach first
  have "sameTables storeW (snd (vote env0 storeW ''ip'' ''A'' ''ban'' (Num 1) None))"
    and "vote env0 storeW ''ip'' ''A'' ''ban'' (Num 1) None
           = (Returned (replyWith 403 (warningMessage ''tip'')),
              unlock env0 (DelKey (lockKey ''A'' ''ban'')) (heldA ''ban'' storeW))"
    by blast+
  with many banned reach first show ?thesis by simp
qed

text \<open>
  C4 as stated fails: with an older warning stored before a newer one, the message
  carries the older reason, not the most recent one.
\<close>

theorem warning_reason_not_most_recent:
  "warned env0 storeW ''#wrn''
   \<and> mostRecentWarningReason env0 storeW ''#wrn'' = Some ''new''
   \<and> fst (vote env0 storeW ''ip'' ''A'' ''wrn'' (Num 1) None)
       = Returned (replyWith 403 (warningMessage ''old''))
   \<and> warningMessage ''old'' \<noteq> warningMessage ''new''"
proof -
  let ?st1 = "storeW\<lparr>redisKeys := [lockKey ''A'' ''wrn'']\<rparr>"
  have reach: "reachesWarningCheck env0 storeW ''A'' ''wrn'' (Num 1) None
      (DelKey (lockKey ''A'' ''wrn'')) ?st1 (seg0 ''A'' ''#ann'' 3 ''sponsor'' Skip)"
    by (simp add: storeW_reach)
  have first: "activeWarnings env0 ?st1 (getHashCache env0 ''wrn'') = ''old'' # [''new'']"
    using storeW_active(1) [of "[lockKey ''A'' ''wrn'']"] by (simp add: env0_def)
  have many: "warned env0 ?st1 (getHashCache env0 ''wrn'')"
    using first by (simp add: warned_def) (simp add: env0_def)
  have run: "vote env0 storeW ''ip'' ''A'' ''wrn'' (Num 1) None =
      (Returned (replyWith 403 (warningMessage ''old'')), unlock env0 (DelKey (lockKey ''A'' ''wrn'')) ?st1)"
    using first many by (simp add: vote_reaches_warning_check [OF reach] Let_def)
  have w0: "warned env0 storeW ''#wrn''"
    by (simp add: warned_def activeWarnings_def storeW_def env0_def MILLISECONDS_IN_HOUR_def)
  have recent: "mostRecentWarningReason env0 storeW ''#wrn'' = Some ''new''"
    by (simp add: mostRecentWarningReason_def storeW_def env0_def MILLISECONDS_IN_HOUR_def)
  have differ: "warningMessage ''old'' \<noteq> warningMessage ''new''"
    by (simp add: warningMessage_def)
  from w0 recent run differ show ?thesis by simp
qed


lemma keepsVotes_refl [simp]: "keepsVotes st st"
  by (simp add: keepsVotes_def)

lemma keepsVotes_trans: "keepsVotes a b \<Longrightarrow> keepsVotes b c \<Longrightarrow> keepsVotes a c"
  by (simp add: keepsVotes_def)

lemma keepsVotes_updateSegment:
  "(\<And>x. votes (f x) = votes x) \<Longrightarrow> (\<And>x. UUID (f x) = UUID x)
     \<Longrightarrow> keepsVotes st (updateSegment u f st)"
  by (simp add: keepsVotes_def updateSegment_def comp_def if_distrib cong: if_cong)

lemma keepsVotes_category_tables [simp]:
  "keepsVotes st (addCategoryVotes u c n st)"
  "keepsVotes st (insertCategoryVotes u c n st)"
  "keepsVotes st (insertPrivateCategoryVote u usr ip c t st)"
  "keepsVotes st (updatePrivateCategoryVote u usr ip c t st)"
  by (simp_all add: keepsVotes_def)

lemma keepsVotes_step:
  "keepsVotes st st1 \<Longrightarrow> keepsVotes st (addCategoryVotes u c n st1)"
  "keepsVotes st st1 \<Longrightarrow> keepsVotes st (insertCategoryVotes u c n st1)"
  "keepsVotes st st1 \<Longrightarrow> keepsVotes st (insertPrivateCategoryVote u usr ip c t st1)"
  "keepsVotes st st1 \<Longrightarrow> keepsVotes st (updatePrivateCategoryVote u usr ip c t st1)"
  by (simp_all add: keepsVotes_def)

lemma keepsVotes_unlock [simp]: "keepsVotes st (unlock e r st1) = keepsVotes st st1"
  by (cases r) (simp_all add: unlock_def redisDel_def keepsVotes_def logError_def Let_def)

lemma keepsVotes_logError [simp]: "keepsVotes st (logError st1) = keepsVotes st st1"
  by (simp add: keepsVotes_def logError_def)

lemma recordCategoryVote_keepsVotes:
  "keepsVotes st (storeOf (recordCategoryVote e st u usr c ip w prior))"
  by (simp add: recordCategoryVote_def storeOf_def Let_def keepsVotes_step
        split: option.splits prod.splits)

lemma decideCategory_keepsVotes:
  "keepsVotes st (storeOf (decideCategory e st u seg c vip tvip own w nextInfo))"
proof -
  have flip: "\<And>s. keepsVotes st s \<Longrightarrow> keepsVotes st (updateSegment u (\<lambda>x. x\<lparr>category := c\<rparr>) s)"
    by (rule keepsVotes_trans, assumption, rule keepsVotes_updateSegment) simp_all
  show ?thesis
    by (simp add: decideCategory_def storeOf_def Let_def keepsVotes_step flip
          split: option.splits)
qed

lemma categoryVote_keepsVotes:
  "keepsVotes st (snd (categoryVote e st u usr vip tvip own c ip fr))"
proof (cases "getSegment st u")
  case None
  then show ?thesis by (auto simp: categoryVote_def Let_def)
next
  case (Some seg)
  let ?w = "voteAmountOf vip tvip"
  let ?R = "recordCategoryVote e st u usr c ip ?w (usersLastVote e st u usr)"
  have r: "keepsVotes st (storeOf ?R)"
    by (rule recordCategoryVote_keepsVotes)
  show ?thesis
  proof (cases ?R)
    case (Rejected s)
    with r have "keepsVotes st s" by (simp add: storeOf_def)
    with Rejected Some show ?thesis by (auto simp: categoryVote_def Let_def)
  next
    case (Continue s1)
    with r have k1: "keepsVotes st s1" by (simp add: storeOf_def)
    let ?D = "decideCategory e s1 u seg c vip tvip own ?w (categoryVotesOf st u c)"
    have "keepsVotes s1 (storeOf ?D)" by (rule decideCategory_keepsVotes)
    with k1 have k2: "keepsVotes st (storeOf ?D)" by (rule keepsVotes_trans)
    show ?thesis
    proof (cases ?D)
      case (Rejected s)
      with k2 have "keepsVotes st s" by (simp add: storeOf_def)
      with Rejected Continue Some show ?thesis by (auto simp: categoryVote_def Let_def)
    next
      case c2: (Continue s2)
      with k2 have "keepsVotes st s2" by (simp add: storeOf_def)
      with c2 Continue Some show ?thesis by (auto simp: categoryVote_def Let_def)
    qed
  qed
qed


lemma find_votes_cong:
  "map UUID xs = map UUID ys \<Longrightarrow> map votes xs = map votes ys
     \<Longrightarrow> map_option votes (find (\<lambda>s. UUID s = u) xs) = map_option votes (find (\<lambda>s. UUID s = u) ys)"
proof (induction xs arbitrary: ys)
  case Nil
  then show ?case by simp
next
  case (Cons x xs)
  then obtain y ys' where ys: "ys = y # ys'" by (cases ys) auto
  with Cons show ?case by auto
qed

lemma keepsVotes_votesOf: "keepsVotes st st' \<Longrightarrow> votesOf st' u = votesOf st u"
  unfolding keepsVotes_def votesOf_def getSegment_def
  by (metis find_votes_cong)

lemma keepsVotes_storedTypeOf: "keepsVotes st st' \<Longrightarrow> storedTypeOf st' usr u = storedTypeOf st usr u"
  by (simp add: keepsVotes_def storedTypeOf_def getVotesRow_def)

lemma keepsVotes_sym: "keepsVotes a b \<Longrightarrow> keepsVotes b a"
  by (simp add: keepsVotes_def)

lemma checkVideoDuration_keepsVotes: "keepsVotes st (checkVideoDuration e st u)"
  by (simp add: checkVideoDuration_def keepsVotes_def logError_def comp_def if_distrib
        split: option.splits apiDuration.splits cong: if_cong)

lemma updateSegmentVideoDuration_keepsVotes:
  "keepsVotes st (storeOf (updateSegmentVideoDuration e st u))"
  by (simp add: updateSegmentVideoDuration_def storeOf_def keepsVotes_updateSegment
        split: option.splits apiDuration.splits)

lemma votesOf_add:
  "votesOf (updateSegment u (\<lambda>x. x\<lparr>votes := votes x + d\<rparr>) st) u
     = map_option (\<lambda>v. v + d) (votesOf st u)"
  by (simp add: votesOf_def getSegment_updateSegment option.map_comp comp_def)

lemma storedTypeOf_updateSegment [simp]:
  "storedTypeOf (updateSegment u f st) usr u' = storedTypeOf st usr u'"
  by (simp add: storedTypeOf_def getVotesRow_def)

lemma votesOf_upsertVote [simp]:
  "votesOf (upsertVote c row ty orig st) u = votesOf st u"
  by (simp add: votesOf_def getSegment_def upsertVote_def split: option.splits)

lemma storedTypeOf_upsertVote:
  "storedTypeOf (upsertVote c (getVotesRow st (voterID c) (segUUID c)) ty orig st)
     (voterID c) (segUUID c) = Some ty"
proof (cases "getVotesRow st (voterID c) (segUUID c)")
  case None
  then show ?thesis
    by (simp add: storedTypeOf_def getVotesRow_def upsertVote_def find_append_case)
next
  case (Some r)
  let ?P = "\<lambda>r. v_userID r = voterID c \<and> v_UUID r = segUUID c"
  let ?g = "\<lambda>x. if v_userID x = voterID c \<and> v_UUID x = segUUID c
                 then x\<lparr>v_type := ty, v_originalType := orig\<rparr> else x"
  from Some have P: "?P r"
    unfolding getVotesRow_def by (rule find_holds [where P = ?P])
  have "find ?P (map ?g (privateVotes st)) = map_option ?g (find ?P (privateVotes st))"
    by (rule find_map_same) simp
  with Some P show ?thesis
    by (simp add: storedTypeOf_def getVotesRow_def upsertVote_def)
qed


lemma keepsVotes_updateSegment_step:
  "(\<And>x. votes (f x) = votes x) \<Longrightarrow> (\<And>x. UUID (f x) = UUID x)
     \<Longrightarrow> keepsVotes st (updateSegment u f s) = keepsVotes st s"
  by (simp add: keepsVotes_def updateSegment_def comp_def if_distrib cong: if_cong)

lemma keepsVotes_updateSegment_left:
  "(\<And>x. votes (f x) = votes x) \<Longrightarrow> (\<And>x. UUID (f x) = UUID x)
     \<Longrightarrow> keepsVotes (updateSegment u f s) s' = keepsVotes s s'"
  by (simp add: keepsVotes_def updateSegment_def comp_def if_distrib cong: if_cong)

lemma updateSegmentVideoDuration_keeps:
  "updateSegmentVideoDuration e s u = Continue s' \<Longrightarrow> keepsVotes s s'"
  "updateSegmentVideoDuration e s u = Rejected s' \<Longrightarrow> keepsVotes s s'"
  using updateSegmentVideoDuration_keepsVotes [of s e u]
  by (auto simp: storeOf_def)

lemma tierSideEffects_keepsVotes:
  "keepsVotes st2 (storeOf (tierSideEffects e st2 c kind incrementAmount))"
  unfolding tierSideEffects_def
  by (auto simp: storeOf_def keepsVotes_updateSegment_step keepsVotes_updateSegment_left
        split: progress.splits dest: updateSegmentVideoDuration_keeps)

lemma applyVote_effect:
  assumes "\<not> throws e VoteUpsert" and "\<not> throws e VotesUpdate"
  shows "votesOf (storeOf (applyVote e st c (getVotesRow st (voterID c) (segUUID c))
                    orig kind ty inc old)) (segUUID c)
           = map_option (\<lambda>v. v + (inc - old)) (votesOf st (segUUID c))
         \<and> storedTypeOf (storeOf (applyVote e st c (getVotesRow st (voterID c) (segUUID c))
                    orig kind ty inc old)) (voterID c) (segUUID c) = Some ty"
proof -
  let ?st1 = "upsertVote c (getVotesRow st (voterID c) (segUUID c)) ty orig st"
  let ?st2 = "updateSegment (segUUID c) (\<lambda>x. x\<lparr>votes := votes x + (inc - old)\<rparr>) ?st1"
  let ?res = "storeOf (tierSideEffects e ?st2 c kind inc)"
  have k: "keepsVotes ?st2 ?res" by (rule tierSideEffects_keepsVotes)
  have "votesOf ?res (segUUID c) = votesOf ?st2 (segUUID c)"
    by (rule keepsVotes_votesOf [OF k])
  moreover have "votesOf ?st2 (segUUID c) = map_option (\<lambda>v. v + (inc - old)) (votesOf st (segUUID c))"
    by (simp add: votesOf_add)
  moreover have "storedTypeOf ?res (voterID c) (segUUID c) = storedTypeOf ?st2 (voterID c) (segUUID c)"
    by (rule keepsVotes_storedTypeOf [OF k])
  moreover have "storedTypeOf ?st2 (voterID c) (segUUID c) = Some ty"
    by (simp add: storedTypeOf_upsertVote)
  moreover have "applyVote e st c (getVotesRow st (voterID c) (segUUID c)) orig kind ty inc old
      = tierSideEffects e ?st2 c kind inc"
    using assms by (simp add: applyVote_def Let_def)
  ultimately show ?thesis by simp
qed


lemma amplify_privileged:
  "privileged c \<Longrightarrow>
     amplify c n (- 1) old =
       (- (votes (segmentInfo c) + 2 - old), - (votes (segmentInfo c) + 2 - old))"
  by (auto simp: amplify_def min_def)

lemma keepsVotes_checkVideoDuration:
  "keepsVotes a b \<Longrightarrow> keepsVotes a (checkVideoDuration e b u)"
  by (erule keepsVotes_trans) (rule checkVideoDuration_keepsVotes)

lemma tryVote_applied:
  assumes "\<not> throws e VotesRowQuery"
      and "incrementAmountOf n = Some i0"
      and "amplify c n i0 (oldIncrementAmountOf (getVotesRow st (voterID c) (segUUID c))) = (inc, ty)"
      and "ableToVote e st c fr n inc
             (oldIncrementAmountOf (getVotesRow st (voterID c) (segUUID c))) = Some True"
  shows "keepsVotes
           (storeOf (applyVote e st c (getVotesRow st (voterID c) (segUUID c)) n
                       (voteTypeEnum (Num n)) ty inc
                       (oldIncrementAmountOf (getVotesRow st (voterID c) (segUUID c)))))
           (attemptStore (tryVote e st c fr (Num n)))"
  using assms
  by (simp add: tryVote_def Let_def attemptStore_def storeOf_def split: progress.splits)

lemma numericVote_after_try:
  assumes "blockCheck e st c t = Some b" and "deadSegmentReply c t = None"
  shows "keepsVotes
           (attemptStore (tryVote e st c (if b then fr\<lparr>blockVote := True\<rparr> else fr) t))
           (snd (numericVote e st c fr t))"
  using assms
  by (cases "tryVote e st c (if b then fr\<lparr>blockVote := True\<rparr> else fr) t")
     (simp_all add: numericVote_def catchVote_def Let_def attemptStore_def
        keepsVotes_checkVideoDuration)

lemma deadSegmentReply_privileged: "privileged c \<Longrightarrow> deadSegmentReply c t = None"
  by (simp add: deadSegmentReply_def split: jsnum.splits)

lemma vote_numeric:
  assumes "reachesDispatch e st ip u p t cat r st1 seg"
      and "truthyNum t \<or> \<not> truthyCategory cat"
  shows "vote e st ip u p t cat = numericVote e st1 (voterOf e ip u p seg r) initialResponse t"
  using assms
  by (auto simp: reachesDispatch_def vote_reaches_warning_check Let_def)

text \<open>
  C1: for a request of type 0 (without category) or 30 that gets past the ban check,
  from a caller who is VIP, temp-VIP or the segment's submitter, whose eligibility gate
  \<^verbatim>\<open>ableToVote\<close> is true for the amplified increment \<open>-(votes + 2 - old)\<close>, and whose
  vote-row query and two writes are not rejected: afterwards the segment's votes are
  exactly -2 and the user's vote row stores the amplified increment as its type.
\<close>

theorem privileged_downvote_resets_votes:
  assumes reach: "reachesDispatch e st ip u p (Num n) cat r st1 seg"
      and c: "c = voterOf e ip u p seg r"
      and priv: "privileged c"
      and down: "(n = 0 \<and> \<not> truthyCategory cat) \<or> n = 30"
      and old: "old = oldIncrementAmountOf (getVotesRow st1 (voterID c) u)"
      and blk: "blockCheck e st1 c (Num n) = Some blocked"
      and gate: "ableToVote e st1 c (initialResponse\<lparr>blockVote := blocked\<rparr>) n
                   (- (votes seg + 2 - old)) old = Some True"
      and ok: "\<not> throws e VotesRowQuery \<and> \<not> throws e VoteUpsert \<and> \<not> throws e VotesUpdate"
  shows "votesOf (snd (vote e st ip u p (Num n) cat)) u = Some (- 2)
         \<and> storedTypeOf (snd (vote e st ip u p (Num n) cat)) (voterID c) u
             = Some (- (votes seg + 2 - old))"
proof -
  let ?inc = "- (votes seg + 2 - old)"
  let ?fr = "if blocked then initialResponse\<lparr>blockVote := True\<rparr> else initialResponse"
  have cu: "segUUID c = u" and cs: "segmentInfo c = seg"
    by (simp_all add: c)
  have fr: "?fr = initialResponse\<lparr>blockVote := blocked\<rparr>"
    by (simp add: initialResponse_def)
  from reach have seg: "getSegment st1 u = Some seg"
    by (simp add: reachesDispatch_def reachesWarningCheck_def)
  from down have disp: "truthyNum (Num n) \<or> \<not> truthyCategory cat"
    by (auto simp: truthyNum_def)
  have run: "vote e st ip u p (Num n) cat = numericVote e st1 c initialResponse (Num n)"
    unfolding c by (rule vote_numeric [OF reach disp])
  from down have i0: "incrementAmountOf n = Some (- 1)"
    by (auto simp: incrementAmountOf_def)
  have amp: "amplify c n (- 1) (oldIncrementAmountOf (getVotesRow st1 (voterID c) (segUUID c)))
               = (?inc, ?inc)"
    using amplify_privileged [OF priv] by (simp add: cs cu old)
  have gate': "ableToVote e st1 c ?fr n ?inc
                 (oldIncrementAmountOf (getVotesRow st1 (voterID c) (segUUID c))) = Some True"
    using gate by (simp add: fr cu old)
  let ?applied = "storeOf (applyVote e st1 c (getVotesRow st1 (voterID c) (segUUID c)) n
                     (voteTypeEnum (Num n)) ?inc ?inc
                     (oldIncrementAmountOf (getVotesRow st1 (voterID c) (segUUID c))))"
  from ok have k1: "keepsVotes ?applied (attemptStore (tryVote e st1 c ?fr (Num n)))"
    by (intro tryVote_applied [OF _ i0 amp gate']) simp
  have "keepsVotes (attemptStore (tryVote e st1 c ?fr (Num n)))
          (snd (numericVote e st1 c initialResponse (Num n)))"
    by (rule numericVote_after_try [OF blk deadSegmentReply_privileged [OF priv]])
  then have k2: "keepsVotes (attemptStore (tryVote e st1 c ?fr (Num n)))
                   (snd (vote e st ip u p (Num n) cat))"
    by (simp only: run)
  have k: "keepsVotes ?applied (snd (vote e st ip u p (Num n) cat))"
    by (rule keepsVotes_trans [OF k1 k2])
  from ok have eff:
      "votesOf ?applied (segUUID c)
         = map_option (\<lambda>v. v + (?inc - oldIncrementAmountOf (getVotesRow st1 (voterID c) (segUUID c))))
             (votesOf st1 (segUUID c))
       \<and> storedTypeOf ?applied (voterID c) (segUUID c) = Some ?inc"
    by (intro applyVote_effect) simp_all
  have "votesOf (snd (vote e st ip u p (Num n) cat)) u = votesOf ?applied u"
    by (rule keepsVotes_votesOf [OF k])
  also have "\<dots> = Some (- 2)"
    using eff seg by (simp add: cu votesOf_def old)
  finally have v: "votesOf (snd (vote e st ip u p (Num n) cat)) u = Some (- 2)" .
  have "storedTypeOf (snd (vote e st ip u p (Num n) cat)) (voterID c) u
          = storedTypeOf ?applied (voterID c) u"
    by (rule keepsVotes_storedTypeOf [OF k])
  with eff have s: "storedTypeOf (snd (vote e st ip u p (Num n) cat)) (voterID c) u = Some ?inc"
    by (simp add: cu)
  from v s show ?thesis by simp
qed


lemma ableToVote_same_ip:
  assumes "\<not> isVIP c" and "\<not> isTempVIP c"
      and "otherVoteFromIP st (segUUID c) (hashedIP c) (voterID c)"
  shows "ableToVote e st c fr orig inc old \<noteq> Some True"
  using assms by (simp add: ableToVote_def)

lemma ableToVote_same_ip_noFaults:
  assumes "\<not> isVIP c" and "\<not> isTempVIP c"
      and "otherVoteFromIP st (segUUID c) (hashedIP c) (voterID c)"
      and "noFaults e"
  shows "ableToVote e st c fr orig inc old = Some False"
  using assms by (simp add: ableToVote_def noFaultsD)

lemma tryVote_same_ip:
  assumes "\<not> isVIP c" and "\<not> isTempVIP c"
      and "otherVoteFromIP st (segUUID c) (hashedIP c) (voterID c)"
  shows "keepsVotes st (attemptStore (tryVote e st c fr t))"
proof -
  have no: "\<And>orig inc old. ableToVote e st c fr orig inc old \<noteq> Some True"
    by (rule ableToVote_same_ip [OF assms])
  show ?thesis
    using no
    by (auto simp: tryVote_def Let_def attemptStore_def
          split: jsnum.splits option.splits bool.splits prod.splits)
qed

lemma numericVote_same_ip:
  assumes "\<not> isVIP c" and "\<not> isTempVIP c"
      and "otherVoteFromIP st (segUUID c) (hashedIP c) (voterID c)"
  shows "keepsVotes st (snd (numericVote e st c fr t))"
proof (cases "blockCheck e st c t")
  case None
  then show ?thesis by (simp add: numericVote_def)
next
  case (Some b)
  show ?thesis
  proof (cases "deadSegmentReply c t")
    case dead: (Some r)
    with Some show ?thesis by (simp add: numericVote_def Let_def)
  next
    case None
    let ?fr = "if b then fr\<lparr>blockVote := True\<rparr> else fr"
    have "keepsVotes st (attemptStore (tryVote e st c ?fr t))"
      by (rule tryVote_same_ip [OF assms])
    moreover have "keepsVotes (attemptStore (tryVote e st c ?fr t))
                     (snd (numericVote e st c fr t))"
      by (rule numericVote_after_try [OF Some None])
    ultimately show ?thesis by (rule keepsVotes_trans)
  qed
qed

lemma acquireLock_keepsVotes: "acquireLock e st key = (l, st1) \<Longrightarrow> keepsVotes st st1"
  by (auto simp: acquireLock_def keepsVotes_def logError_def split: if_splits)

lemma numericVote_same_ip_status:
  assumes plain: "\<not> isVIP c" "\<not> isTempVIP c"
      and other: "otherVoteFromIP st (segUUID c) (hashedIP c) (voterID c)"
      and nf: "noFaults e"
      and alive: "deadSegmentReply c (Num n) = None"
      and known: "incrementAmountOf n \<noteq> None"
  shows "fst (numericVote e st c initialResponse (Num n)) = Returned (reply 200)"
proof -
  have gate: "\<And>fr orig inc old. ableToVote e st c fr orig inc old = Some False"
    by (rule ableToVote_same_ip_noFaults [OF plain other nf])
  from nf have "blockCheck e st c (Num n) \<noteq> None"
    by (auto simp: blockCheck_def noFaultsD)
  then obtain b where b: "blockCheck e st c (Num n) = Some b" by blast
  from known obtain i0 where i0: "incrementAmountOf n = Some i0" by auto
  show ?thesis
    using nf b alive i0
    by (simp add: numericVote_def catchVote_def tryVote_def Let_def gate noFaultsD
          finalReply_def reply_def initialResponse_def split: prod.splits)
qed

lemma voterOf_flags:
  "isVIP (voterOf e ip u p seg r) = isUserVIP e (getHashCache e p)"
  "isTempVIP (voterOf e ip u p seg r) = isUserTempVIP e (getHashCache e p) (videoID seg)"
  "isOwnSubmission (voterOf e ip u p seg r) = (getHashCache e p = userID seg)"
  by (simp_all add: voterOf_def)

lemma voteLocked_same_ip:
  assumes vip: "\<not> isUserVIP e (getHashCache e p)"
      and temp: "\<forall>seg. getSegment st u = Some seg \<longrightarrow>
                   \<not> isUserTempVIP e (getHashCache e p) (videoID seg)"
      and other: "otherVoteFromIP st u (getHashCache e (ip @ globalSalt e))
                    (getHashCache e (p @ u))"
  shows "keepsVotes st (snd (voteLocked e st r ip u p t cat))"
proof (cases "getSegment st u")
  case None
  then show ?thesis by (simp add: voteLocked_def)
next
  case (Some seg)
  let ?c = "voterOf e ip u p seg r"
  from temp Some have t2: "\<not> isTempVIP ?c" by (simp add: voterOf_flags)
  from vip have t1: "\<not> isVIP ?c" by (simp add: voterOf_flags)
  from other have o: "otherVoteFromIP st (segUUID ?c) (hashedIP ?c) (voterID ?c)" by simp
  have num: "\<And>fr. keepsVotes st (snd (numericVote e st ?c fr t))"
    by (rule numericVote_same_ip [OF t1 t2 o])
  have cat: "\<And>usr a b c' d hip fr.
      keepsVotes st (snd (categoryVote e (unlock e r st) u usr a b c' d hip fr))"
    by (rule keepsVotes_trans [OF _ categoryVote_keepsVotes]) simp
  have warn: "keepsVotes st
      (snd (case activeWarnings e st (getHashCache e p) of
              [] \<Rightarrow> (Threw, unlock e r st)
            | warningReason # rest \<Rightarrow>
                (Returned (replyWith 403 (warningMessage warningReason)), unlock e r st)))"
    by (cases "activeWarnings e st (getHashCache e p)") simp_all
  from Some show ?thesis
    by (simp add: voteLocked_def Let_def num cat warn)
qed

text \<open>
  C6: when the private vote table holds a row for the same segment and hashed IP under
  another per-segment user id, and the caller is neither VIP nor temp-VIP, no call of
  \<^verbatim>\<open>vote\<close> writes a vote row or changes a segment's votes. For a numeric vote that
  gets past the ban check, the eligibility gate \<^verbatim>\<open>ableToVote\<close> is never true, and when
  no call rejects, the type is a recognised one and the request is not answered early
  for a dead segment, the reply is the base status 200.
\<close>

theorem same_ip_vote_not_applied:
  assumes vip: "\<not> isUserVIP e (getHashCache e p)"
      and temp: "\<forall>seg. getSegment st u = Some seg \<longrightarrow>
                   \<not> isUserTempVIP e (getHashCache e p) (videoID seg)"
      and other: "otherVoteFromIP st u (getHashCache e (ip @ globalSalt e))
                    (getHashCache e (p @ u))"
  shows "keepsVotes st (snd (vote e st ip u p t cat))
         \<and> (reachesDispatch e st ip u p t cat r st1 seg
              \<and> (truthyNum t \<or> \<not> truthyCategory cat) \<longrightarrow>
              (\<forall>fr n inc old.
                 ableToVote e st1 (voterOf e ip u p seg r) fr n inc old \<noteq> Some True)
              \<and> (noFaults e \<and> deadSegmentReply (voterOf e ip u p seg r) t = None
                   \<and> (\<exists>n. t = Num n \<and> incrementAmountOf n \<noteq> None)
                 \<longrightarrow> fst (vote e st ip u p t cat) = Returned (reply 200)))"
proof
  have moved: "\<not> isUserVIP e (getHashCache e p)
      \<and> (\<forall>seg. getSegment s1 u = Some seg \<longrightarrow>
             \<not> isUserTempVIP e (getHashCache e p) (videoID seg))
      \<and> otherVoteFromIP s1 u (getHashCache e (ip @ globalSalt e)) (getHashCache e (p @ u))"
    if "sameTables st s1" for s1
  proof -
    from that have "sponsorTimes s1 = sponsorTimes st" and pv: "privateVotes s1 = privateVotes st"
      by (simp_all add: sameTables_def)
    then have "getSegment s1 u = getSegment st u" by (intro getSegment_cong)
    with vip temp other pv show ?thesis by (simp add: otherVoteFromIP_def)
  qed
  show "keepsVotes st (snd (vote e st ip u p t cat))"
  proof (cases "acquireLock e st (lockKey u p)")
    case (Pair l s1)
    then have k0: "keepsVotes st s1" by (rule acquireLock_keepsVotes)
    from Pair have "sameTables st s1" by (rule acquireLock_tables)
    note m = moved [OF this]
    show ?thesis
    proof (cases l)
      case NotAcquired
      with Pair k0 show ?thesis by (simp add: vote_def)
    next
      case (Held r')
      have "keepsVotes s1 (snd (voteLocked e s1 r' ip u p t cat))"
        using m by (intro voteLocked_same_ip) simp_all
      with k0 have "keepsVotes st (snd (voteLocked e s1 r' ip u p t cat))"
        by (rule keepsVotes_trans)
      with Pair Held show ?thesis by (simp add: vote_def)
    qed
  qed
  show "reachesDispatch e st ip u p t cat r st1 seg
          \<and> (truthyNum t \<or> \<not> truthyCategory cat) \<longrightarrow>
        (\<forall>fr n inc old.
           ableToVote e st1 (voterOf e ip u p seg r) fr n inc old \<noteq> Some True)
        \<and> (noFaults e \<and> deadSegmentReply (voterOf e ip u p seg r) t = None
             \<and> (\<exists>n. t = Num n \<and> incrementAmountOf n \<noteq> None)
           \<longrightarrow> fst (vote e st ip u p t cat) = Returned (reply 200))"
  proof (intro impI)
    let ?c = "voterOf e ip u p seg r"
    assume a: "reachesDispatch e st ip u p t cat r st1 seg
                 \<and> (truthyNum t \<or> \<not> truthyCategory cat)"
    then have reach: "reachesDispatch e st ip u p t cat r st1 seg"
      and numeric: "truthyNum t \<or> \<not> truthyCategory cat"
      by simp_all
    have run: "vote e st ip u p t cat = numericVote e st1 ?c initialResponse t"
      by (rule vote_numeric [OF reach numeric])
    from reach have lk: "acquireLock e st (lockKey u p) = (Held r, st1)"
      and seg: "getSegment st1 u = Some seg"
      by (simp_all add: reachesDispatch_def reachesWarningCheck_def)
    note m = moved [OF acquireLock_tables [OF lk]]
    from m have p1: "\<not> isVIP ?c" by (simp add: voterOf_flags)
    from m seg have p2: "\<not> isTempVIP ?c" by (simp add: voterOf_flags)
    from m have o: "otherVoteFromIP st1 (segUUID ?c) (hashedIP ?c) (voterID ?c)" by simp
    have gate: "\<forall>fr n inc old. ableToVote e st1 ?c fr n inc old \<noteq> Some True"
      using ableToVote_same_ip [OF p1 p2 o] by blast
    have stat: "noFaults e \<and> deadSegmentReply ?c t = None
               \<and> (\<exists>n. t = Num n \<and> incrementAmountOf n \<noteq> None)
             \<longrightarrow> fst (vote e st ip u p t cat) = Returned (reply 200)"
      unfolding run
      using numericVote_same_ip_status [OF p1 p2 o] by auto
    from gate stat show "(\<forall>fr n inc old. ableToVote e st1 ?c fr n inc old \<noteq> Some True)
        \<and> (noFaults e \<and> deadSegmentReply ?c t = None
             \<and> (\<exists>n. t = Num n \<and> incrementAmountOf n \<noteq> None)
           \<longrightarrow> fst (vote e st ip u p t cat) = Returned (reply 200))"
      by (rule conjI)
  qed
qed

lemma voteLocked_zero_as_absent:
  "truthyCategory cat \<Longrightarrow>
     voteLocked e st r ip u p (Num 0) cat = voteLocked e st r ip u p Undefined cat"
  by (cases "getSegment st u") (simp_all add: voteLocked_def truthyNum_def Let_def)

lemma vote_zero_as_absent:
  "truthyCategory cat \<Longrightarrow> vote e st ip u p (Num 0) cat = vote e st ip u p Undefined cat"
proof (cases "acquireLock e st (lockKey u p)")
  case (Pair l st1)
  assume "truthyCategory cat"
  then show ?thesis
    using Pair by (cases l) (simp_all add: vote_def voteLocked_zero_as_absent)
qed

lemma voteLocked_category_ignored:
  "n \<noteq> 0 \<Longrightarrow> voteLocked e st r ip u p (Num n) cat = voteLocked e st r ip u p (Num n) None"
  by (cases "getSegment st u") (simp_all add: voteLocked_def truthyNum_def Let_def)

lemma vote_category_ignored:
  "n \<noteq> 0 \<Longrightarrow> vote e st ip u p (Num n) cat = vote e st ip u p (Num n) None"
proof (cases "acquireLock e st (lockKey u p)")
  case (Pair l st1)
  assume n: "n \<noteq> 0"
  show ?thesis
  proof (cases l)
    case NotAcquired
    with Pair show ?thesis by (simp add: vote_def)
  next
    case (Held r)
    with Pair show ?thesis
      by (simp add: vote_def voteLocked_category_ignored [OF n, of e st1 r ip u p cat])
  qed
qed

text \<open>
  C10: with a non-empty category, type 0 behaves as no type at all; with any non-zero
  type the category makes no difference; and a request with type 0 and a category
  that gets past the ban check is exactly the category vote, run after the lock was
  released, which leaves the private vote table and every segment's vote count alone.
\<close>

theorem zero_type_with_category_delegates:
  "(truthyCategory cat \<longrightarrow> vote e st ip u p (Num 0) cat = vote e st ip u p Undefined cat)
   \<and> (n \<noteq> 0 \<longrightarrow> vote e st ip u p (Num n) cat = vote e st ip u p (Num n) None)
   \<and> (reachesDispatch e st ip u p (Num 0) cat r st1 seg \<and> truthyCategory cat \<longrightarrow>
        vote e st ip u p (Num 0) cat =
          categoryVote e (unlock e r st1) u (getHashCache e p)
            (isVIP (voterOf e ip u p seg r)) (isTempVIP (voterOf e ip u p seg r))
            (isOwnSubmission (voterOf e ip u p seg r)) (the cat)
            (getHashCache e (ip @ globalSalt e)) initialResponse
        \<and> keepsVotes st (snd (vote e st ip u p (Num 0) cat)))"
proof (intro conjI impI)
  assume "truthyCategory cat"
  then show "vote e st ip u p (Num 0) cat = vote e st ip u p Undefined cat"
    by (rule vote_zero_as_absent)
next
  assume "n \<noteq> 0"
  then show "vote e st ip u p (Num n) cat = vote e st ip u p (Num n) None"
    by (rule vote_category_ignored)
next
  assume a: "reachesDispatch e st ip u p (Num 0) cat r st1 seg \<and> truthyCategory cat"
  then have reach: "reachesWarningCheck e st u p (Num 0) cat r st1 seg"
    by (simp add: reachesDispatch_def)
  from a show run: "vote e st ip u p (Num 0) cat =
      categoryVote e (unlock e r st1) u (getHashCache e p)
        (isVIP (voterOf e ip u p seg r)) (isTempVIP (voterOf e ip u p seg r))
        (isOwnSubmission (voterOf e ip u p seg r)) (the cat)
        (getHashCache e (ip @ globalSalt e)) initialResponse"
    by (simp add: reachesDispatch_def vote_reaches_warning_check [OF reach] Let_def
          truthyNum_def)
  from a have "acquireLock e st (lockKey u p) = (Held r, st1)"
    by (simp add: reachesDispatch_def reachesWarningCheck_def)
  then have "keepsVotes st (unlock e r st1)"
    by (simp add: acquireLock_keepsVotes)
  then show "keepsVotes st (snd (vote e st ip u p (Num 0) cat))"
    unfolding run by (rule keepsVotes_trans) (rule categoryVote_keepsVotes)
qed



theorem banned_vote_silently_dropped_witness:
  "checkBanStatus env0 (getHashCache env0 ''ban'') (getHashCache env0 (''ip'' @ globalSalt env0))
   \<and> \<not> warned env0 store0 (getHashCache env0 ''ban'')
   \<and> reachesWarningCheck env0 store0 ''A'' ''ban'' (Num 0) None (DelKey (lockKey ''A'' ''ban''))
       (heldA ''ban'' store0) segA
   \<and> sameTables store0 (snd (vote env0 store0 ''ip'' ''A'' ''ban'' (Num 0) None))
   \<and> vote env0 store0 ''ip'' ''A'' ''ban'' (Num 0) None
       = (Returned (reply 200), unlock env0 (DelKey (lockKey ''A'' ''ban'')) (heldA ''ban'' store0))"
proof -
  have banned: "checkBanStatus env0 (getHashCache env0 ''ban'')
      (getHashCache env0 (''ip'' @ globalSalt env0))"
    by code_simp
  have calm: "\<not> warned env0 store0 (getHashCache env0 ''ban'')"
    by code_simp
  have reach: "reachesWarningCheck env0 store0 ''A'' ''ban'' (Num 0) None
      (DelKey (lockKey ''A'' ''ban'')) (heldA ''ban'' store0) segA"
    by code_simp
  from banned_vote_silently_dropped
         [OF banned calm, of "''A''" "Num 0" None "DelKey (lockKey ''A'' ''ban'')"
            "heldA ''ban'' store0" segA]
       banned calm reach
  show ?thesis by blast
qed

theorem privileged_downvote_resets_votes_witness:
  "reachesDispatch env0 store0 ''ip'' ''A'' ''vip'' (Num 0) None (DelKey (lockKey ''A'' ''vip''))
     (heldA ''vip'' store0) segA
   \<and> privileged (voterOf env0 ''ip'' ''A'' ''vip'' segA (DelKey (lockKey ''A'' ''vip'')))
   \<and> votesOf store0 ''A'' = Some 3
   \<and> getVotesRow (heldA ''vip'' store0) ''#vipA'' ''A'' = None
   \<and> votesOf (snd (vote env0 store0 ''ip'' ''A'' ''vip'' (Num 0) None)) ''A'' = Some (- 2)
   \<and> storedTypeOf (snd (vote env0 store0 ''ip'' ''A'' ''vip'' (Num 0) None)) ''#vipA'' ''A''
       = Some (- 5)"
proof -
  let ?r = "DelKey (lockKey ''A'' ''vip'')"
  let ?c = "voterOf env0 ''ip'' ''A'' ''vip'' segA ?r"
  let ?st1 = "heldA ''vip'' store0"
  have reach: "reachesDispatch env0 store0 ''ip'' ''A'' ''vip'' (Num 0) None ?r ?st1 segA"
    by code_simp
  have priv: "privileged ?c" by code_simp
  have down: "((0::int) = 0 \<and> \<not> truthyCategory None) \<or> (0::int) = 30" by code_simp
  have row: "getVotesRow ?st1 ''#vipA'' ''A'' = None" by code_simp
  have old: "(0::int) = oldIncrementAmountOf (getVotesRow ?st1 (voterID ?c) ''A'')"
    by code_simp
  have blk: "blockCheck env0 ?st1 ?c (Num 0) = Some False" by code_simp
  have gate: "ableToVote env0 ?st1 ?c (initialResponse\<lparr>blockVote := False\<rparr>) 0
      (- (votes segA + 2 - 0)) 0 = Some True"
    by code_simp
  have ok: "\<not> throws env0 VotesRowQuery \<and> \<not> throws env0 VoteUpsert \<and> \<not> throws env0 VotesUpdate"
    by code_simp
  have v: "votesOf store0 ''A'' = Some 3" by code_simp
  have id: "voterID ?c = ''#vipA''" by code_simp
  have five: "- (votes segA + 2 - 0) = - 5" by code_simp
  note main = privileged_downvote_resets_votes [OF reach refl priv down old blk gate ok]
  from main have reset:
      "votesOf (snd (vote env0 store0 ''ip'' ''A'' ''vip'' (Num 0) None)) ''A'' = Some (- 2)"
    by (rule conjunct1)
  from main have "storedTypeOf (snd (vote env0 store0 ''ip'' ''A'' ''vip'' (Num 0) None))
      (voterID ?c) ''A'' = Some (- (votes segA + 2 - 0))"
    by (rule conjunct2)
  then have stored:
      "storedTypeOf (snd (vote env0 store0 ''ip'' ''A'' ''vip'' (Num 0) None)) ''#vipA'' ''A''
         = Some (- 5)"
    by (simp only: id five)
  from reach priv v row reset stored show ?thesis by (intro conjI)
qed

theorem same_ip_vote_not_applied_witness:
  "\<not> isUserVIP env0 (getHashCache env0 ''bob'')
   \<and> \<not> isUserTempVIP env0 (getHashCache env0 ''bob'') (videoID segA)
   \<and> otherVoteFromIP storeIP ''A'' (getHashCache env0 (''ip'' @ globalSalt env0))
        (getHashCache env0 (''bob'' @ ''A''))
   \<and> reachesDispatch env0 storeIP ''ip'' ''A'' ''bob'' (Num 1) None
        (DelKey (lockKey ''A'' ''bob'')) (heldA ''bob'' storeIP) segA
   \<and> noFaults env0
   \<and> keepsVotes storeIP (snd (vote env0 storeIP ''ip'' ''A'' ''bob'' (Num 1) None))
   \<and> fst (vote env0 storeIP ''ip'' ''A'' ''bob'' (Num 1) None) = Returned (reply 200)"
proof -
  let ?r = "DelKey (lockKey ''A'' ''bob'')"
  let ?c = "voterOf env0 ''ip'' ''A'' ''bob'' segA ?r"
  have vip: "\<not> isUserVIP env0 (getHashCache env0 ''bob'')" by code_simp
  have temp1: "\<not> isUserTempVIP env0 (getHashCache env0 ''bob'') (videoID segA)" by code_simp
  have temp: "\<forall>seg. getSegment storeIP ''A'' = Some seg \<longrightarrow>
      \<not> isUserTempVIP env0 (getHashCache env0 ''bob'') (videoID seg)"
    by (simp add: env0_def)
  have other: "otherVoteFromIP storeIP ''A'' (getHashCache env0 (''ip'' @ globalSalt env0))
      (getHashCache env0 (''bob'' @ ''A''))"
    by code_simp
  have reach: "reachesDispatch env0 storeIP ''ip'' ''A'' ''bob'' (Num 1) None ?r
      (heldA ''bob'' storeIP) segA"
    by code_simp
  have numeric: "truthyNum (Num 1) \<or> \<not> truthyCategory None" by code_simp
  have alive: "deadSegmentReply ?c (Num 1) = None" by code_simp
  have known: "\<exists>n. Num 1 = Num n \<and> incrementAmountOf n \<noteq> None"
    by (rule exI [of _ 1]) code_simp
  from same_ip_vote_not_applied
         [OF vip temp other, of "Num 1" None ?r "heldA ''bob'' storeIP" segA]
       reach numeric noFaults_env0 alive known
  have both: "keepsVotes storeIP (snd (vote env0 storeIP ''ip'' ''A'' ''bob'' (Num 1) None))
      \<and> fst (vote env0 storeIP ''ip'' ''A'' ''bob'' (Num 1) None) = Returned (reply 200)"
    by blast
  from vip temp1 other reach noFaults_env0 both [THEN conjunct1] both [THEN conjunct2]
  show ?thesis by (intro conjI)
qed

theorem zero_type_with_category_delegates_witness:
  "truthyCategory (Some ''intro'') \<and> (1::int) \<noteq> 0
   \<and> reachesDispatch env0 store0 ''ip'' ''A'' ''bob'' (Num 0) (Some ''intro'')
       (DelKey (lockKey ''A'' ''bob'')) (heldA ''bob'' store0) segA
   \<and> vote env0 store0 ''ip'' ''A'' ''bob'' (Num 0) (Some ''intro'')
       = vote env0 store0 ''ip'' ''A'' ''bob'' Undefined (Some ''intro'')
   \<and> vote env0 store0 ''ip'' ''A'' ''bob'' (Num 1) (Some ''intro'')
       = vote env0 store0 ''ip'' ''A'' ''bob'' (Num 1) None
   \<and> keepsVotes store0 (snd (vote env0 store0 ''ip'' ''A'' ''bob'' (Num 0) (Some ''intro'')))"
proof -
  have cat: "truthyCategory (Some ''intro'')" by code_simp
  have one: "(1::int) \<noteq> 0" by simp
  have reach: "reachesDispatch env0 store0 ''ip'' ''A'' ''bob'' (Num 0) (Some ''intro'')
      (DelKey (lockKey ''A'' ''bob'')) (heldA ''bob'' store0) segA"
    by code_simp
  from zero_type_with_category_delegates
         [of "Some ''intro''" env0 store0 "''ip''" "''A''" "''bob''" 1
            "DelKey (lockKey ''A'' ''bob'')" "heldA ''bob'' store0" segA]
       cat one reach
  show ?thesis by blast
qed

text \<open>
  C3 fails on the code: when the segment query of line 372, which is awaited after the
  lock is acquired and before the \<^verbatim>\<open>try\<close> block, rejects, \<^verbatim>\<open>vote\<close> rejects with the
  lock still held and \<^verbatim>\<open>unlock\<close> never called. A rejection inside the \<^verbatim>\<open>try\<close> block
  (here the vote-row query) is caught: status 500, the generic payload, the lock
  released.
\<close>

theorem lock_kept_when_segment_load_rejects:
  "lockStatus (fst (acquireLock envLoadFails store0 (lockKey ''A'' ''bob'')))
   \<and> vote envLoadFails store0 ''ip'' ''A'' ''bob'' (Num 1) None = (Threw, heldA ''bob'' store0)
   \<and> unlockCalls (heldA ''bob'' store0) = 0
   \<and> lockKey ''A'' ''bob'' \<in> set (redisKeys (heldA ''bob'' store0))
   \<and> fst (vote envRowFails store0 ''ip'' ''A'' ''bob'' (Num 1) None)
       = Returned \<lparr>status = 500, message = None,
                    json = Some ''Internal error creating segment vote''\<rparr>
   \<and> unlockCalls (snd (vote envRowFails store0 ''ip'' ''A'' ''bob'' (Num 1) None)) = 1
   \<and> redisKeys (snd (vote envRowFails store0 ''ip'' ''A'' ''bob'' (Num 1) None)) = []"
  by code_simp

text \<open>
  C5 fails on the code: on a chapter segment with -14 votes, a user's malicious vote
  (type 30) stores the capped increment 12 as the row's type and brings the votes to
  -2; the same vote again reads the stored 12 as the legacy code worth -500 and raises
  the votes to 493.
\<close>

theorem repeated_malicious_vote_changes_votes:
  "votesOf store0 ''B'' = Some (- 14)
   \<and> fst (vote env0 store0 ''ip'' ''B'' ''bob'' (Num 30) None) = Returned (reply 200)
   \<and> votesOf (snd (vote env0 store0 ''ip'' ''B'' ''bob'' (Num 30) None)) ''B'' = Some (- 2)
   \<and> storedTypeOf (snd (vote env0 store0 ''ip'' ''B'' ''bob'' (Num 30) None)) ''#bobB'' ''B''
       = Some 12
   \<and> fst (vote env0 (snd (vote env0 store0 ''ip'' ''B'' ''bob'' (Num 30) None))
             ''ip'' ''B'' ''bob'' (Num 30) None) = Returned (reply 200)
   \<and> votesOf (snd (vote env0 (snd (vote env0 store0 ''ip'' ''B'' ''bob'' (Num 30) None))
                      ''ip'' ''B'' ''bob'' (Num 30) None)) ''B'' = Some 493"
  by code_simp

theorem lock_kept_when_segment_load_rejects_witness:
  "fst (vote envLoadFails store0 ''ip'' ''A'' ''bob'' (Num 1) None) = Threw
   \<and> unlockCalls (snd (vote envLoadFails store0 ''ip'' ''A'' ''bob'' (Num 1) None)) = 0
   \<and> redisKeys (snd (vote envLoadFails store0 ''ip'' ''A'' ''bob'' (Num 1) None))
       = [lockKey ''A'' ''bob'']"
  using lock_kept_when_segment_load_rejects by (simp add: heldA_def)

theorem repeated_malicious_vote_changes_votes_witness:
  "votesOf (snd (vote env0 (snd (vote env0 store0 ''ip'' ''B'' ''bob'' (Num 30) None))
                   ''ip'' ''B'' ''bob'' (Num 30) None)) ''B''
     \<noteq> votesOf (snd (vote env0 store0 ''ip'' ''B'' ''bob'' (Num 30) None)) ''B''"
  using repeated_malicious_vote_changes_votes by simp

section \<open>Release of the lock and repeated votes\<close>


lemma unlockCalls_tables [simp]:
  "unlockCalls (addCategoryVotes u c n st) = unlockCalls st"
  "unlockCalls (insertCategoryVotes u c n st) = unlockCalls st"
  "unlockCalls (insertPrivateCategoryVote u usr ip c t st) = unlockCalls st"
  "unlockCalls (updatePrivateCategoryVote u usr ip c t st) = unlockCalls st"
  "unlockCalls (upsertVote v row ty orig st) = unlockCalls st"
  "unlockCalls (logError st) = unlockCalls st"
  by (simp_all add: addCategoryVotes_def insertCategoryVotes_def insertPrivateCategoryVote_def
        updatePrivateCategoryVote_def upsertVote_def logError_def split: option.splits)

lemma unlockCalls_unlock [simp]: "unlockCalls (unlock e r st) = Suc (unlockCalls st)"
  by (cases r) (simp_all add: unlock_def redisDel_def logError_def Let_def)

lemma unlockCalls_checkVideoDuration [simp]:
  "unlockCalls (checkVideoDuration e st u) = unlockCalls st"
  by (simp add: checkVideoDuration_def split: option.splits apiDuration.splits)

lemma unlockCalls_updateSegmentVideoDuration:
  "unlockCalls (storeOf (updateSegmentVideoDuration e st u)) = unlockCalls st"
  by (simp add: updateSegmentVideoDuration_def storeOf_def split: option.splits apiDuration.splits)

lemma unlockCalls_recordCategoryVote:
  "unlockCalls (storeOf (recordCategoryVote e st u usr c ip w prior)) = unlockCalls st"
  by (simp add: recordCategoryVote_def storeOf_def Let_def split: option.splits prod.splits)

lemma unlockCalls_decideCategory:
  "unlockCalls (storeOf (decideCategory e st u seg c vip tvip own w nextInfo)) = unlockCalls st"
  by (simp add: decideCategory_def storeOf_def Let_def split: option.splits)

lemma unlockCalls_categoryVote:
  "unlockCalls (snd (categoryVote e st u usr vip tvip own c ip fr)) = unlockCalls st"
proof (cases "getSegment st u")
  case None
  then show ?thesis by (simp add: categoryVote_def Let_def)
next
  case (Some seg)
  let ?w = "voteAmountOf vip tvip"
  let ?R = "recordCategoryVote e st u usr c ip ?w (usersLastVote e st u usr)"
  have r: "unlockCalls (storeOf ?R) = unlockCalls st"
    by (rule unlockCalls_recordCategoryVote)
  show ?thesis
  proof (cases ?R)
    case (Rejected s)
    with r have "unlockCalls s = unlockCalls st" by (simp add: storeOf_def)
    with Rejected Some show ?thesis by (auto simp: categoryVote_def Let_def)
  next
    case (Continue s1)
    with r have k1: "unlockCalls s1 = unlockCalls st" by (simp add: storeOf_def)
    let ?D = "decideCategory e s1 u seg c vip tvip own ?w (categoryVotesOf st u c)"
    have "unlockCalls (storeOf ?D) = unlockCalls s1" by (rule unlockCalls_decideCategory)
    with k1 have k2: "unlockCalls (storeOf ?D) = unlockCalls st" by simp
    show ?thesis
    proof (cases ?D)
      case (Rejected s)
      with k2 have "unlockCalls s = unlockCalls st" by (simp add: storeOf_def)
      with Rejected Continue Some show ?thesis by (auto simp: categoryVote_def Let_def)
    next
      case c2: (Continue s2)
      with k2 have "unlockCalls s2 = unlockCalls st" by (simp add: storeOf_def)
      with c2 Continue Some show ?thesis by (auto simp: categoryVote_def Let_def)
    qed
  qed
qed

lemma updateSegmentVideoDuration_unlockCalls:
  "updateSegmentVideoDuration e s u = Continue s' \<Longrightarrow> unlockCalls s' = unlockCalls s"
  "updateSegmentVideoDuration e s u = Rejected s' \<Longrightarrow> unlockCalls s' = unlockCalls s"
  using unlockCalls_updateSegmentVideoDuration [of e s u] by (simp_all add: storeOf_def)

lemma unlockCalls_tierSideEffects:
  "unlockCalls (storeOf (tierSideEffects e st c kind inc)) = unlockCalls st"
  unfolding tierSideEffects_def
  by (auto simp: storeOf_def split: progress.splits
        dest: updateSegmentVideoDuration_unlockCalls)

lemma unlockCalls_applyVote:
  "unlockCalls (storeOf (applyVote e st c row orig kind ty inc old)) = unlockCalls st"
  by (simp add: applyVote_def Let_def unlockCalls_tierSideEffects) (simp add: storeOf_def)

lemma applyVote_unlockCalls:
  "applyVote e st c row orig kind ty inc old = Rejected s \<Longrightarrow> unlockCalls s = unlockCalls st"
  "applyVote e st c row orig kind ty inc old = Continue s \<Longrightarrow> unlockCalls s = unlockCalls st"
  using unlockCalls_applyVote [of e st c row orig kind ty inc old]
  by (simp_all add: storeOf_def)

lemma unlockCalls_tryVote:
  "(case tryVote e st c fr t of
      Raised s \<Rightarrow> unlockCalls s = unlockCalls st
    | Finished r s \<Rightarrow> unlockCalls s = Suc (unlockCalls st))"
  by (auto simp: tryVote_def Let_def
        split: jsnum.splits option.splits bool.splits prod.splits progress.splits
        dest: applyVote_unlockCalls)

lemma unlockCalls_catchVote:
  "unlockCalls (snd (catchVote e st c fr t)) = Suc (unlockCalls st)"
  using unlockCalls_tryVote [where e = e and st = st and c = c and fr = fr and t = t]
  by (simp add: catchVote_def split: attempt.splits)

lemma blockCheck_total: "\<not> throws e VideoLockQuery \<Longrightarrow> blockCheck e st c t \<noteq> None"
  by (auto simp: blockCheck_def)

lemma unlockCalls_numericVote:
  assumes "\<not> throws e VideoLockQuery"
  shows "unlockCalls (snd (numericVote e st c fr t)) = Suc (unlockCalls st)"
proof -
  from assms obtain b where b: "blockCheck e st c t = Some b"
    using blockCheck_total [of e st c t] by blast
  show ?thesis
  proof (cases "deadSegmentReply c t")
    case (Some r)
    with b show ?thesis by (simp add: numericVote_def Let_def)
  next
    case None
    let ?fr = "if b then fr\<lparr>blockVote := True\<rparr> else fr"
    obtain out s1 where cv: "catchVote e st c ?fr t = (out, s1)"
      by (cases "catchVote e st c ?fr t")
    with unlockCalls_catchVote [of e st c ?fr t]
    have "unlockCalls s1 = Suc (unlockCalls st)" by simp
    with b None cv show ?thesis by (simp add: numericVote_def Let_def)
  qed
qed

lemma unlockCalls_voteLocked:
  assumes "\<not> throws e LoadSegment" and "\<not> throws e TempVIPLookup" and "\<not> throws e VIPLookup"
      and "\<not> throws e BanLookup" and "\<not> throws e WarningsQuery" and "\<not> throws e VideoLockQuery"
  shows "unlockCalls (snd (voteLocked e st r ip u p t cat)) = Suc (unlockCalls st)"
  using assms
  by (cases "getSegment st u")
     (simp_all add: voteLocked_def Let_def unlockCalls_numericVote unlockCalls_categoryVote
        split: list.splits)

lemma acquireLock_unlockCalls:
  "acquireLock e st key = (l, st1) \<Longrightarrow> unlockCalls st1 = unlockCalls st"
  by (auto simp: acquireLock_def logError_def split: if_splits)

text \<open>
  The release of the lock, in general: when the lock is acquired, the request passes
  the parameter checks and none of the six calls awaited between \<^verbatim>\<open>acquireLock\<close> and
  the \<^verbatim>\<open>try\<close> block rejects, \<^verbatim>\<open>unlock\<close> is called exactly once, on every return and
  on every rejection inside the \<^verbatim>\<open>try\<close> block or inside the category vote.
\<close>

theorem vote_releases_lock_once:
  assumes held: "acquireLock e st (lockKey u p) = (Held r, st1)"
      and valid: "u \<noteq> [] \<and> p \<noteq> [] \<and> (t \<noteq> Undefined \<or> truthyCategory cat)
                  \<and> minUserIDLength e \<le> length p"
      and pre: "\<not> throws e LoadSegment \<and> \<not> throws e TempVIPLookup \<and> \<not> throws e VIPLookup
                \<and> \<not> throws e BanLookup \<and> \<not> throws e WarningsQuery
                \<and> \<not> throws e VideoLockQuery"
  shows "unlockCalls (snd (vote e st ip u p t cat)) = Suc (unlockCalls st)"
proof -
  from held valid have "vote e st ip u p t cat = voteLocked e st1 r ip u p t cat"
    by (simp add: vote_def)
  moreover from pre have "unlockCalls (snd (voteLocked e st1 r ip u p t cat)) = Suc (unlockCalls st1)"
    by (intro unlockCalls_voteLocked) simp_all
  moreover from held have "unlockCalls st1 = unlockCalls st"
    by (rule acquireLock_unlockCalls)
  ultimately show ?thesis by simp
qed


theorem vote_releases_lock_once_witness:
  "acquireLock envRowFails store0 (lockKey ''A'' ''bob'')
     = (Held (DelKey (lockKey ''A'' ''bob'')), heldA ''bob'' store0)
   \<and> minUserIDLength envRowFails \<le> length ''bob''
   \<and> throws envRowFails VotesRowQuery
   \<and> \<not> throws envRowFails LoadSegment
   \<and> unlockCalls (snd (vote envRowFails store0 ''ip'' ''A'' ''bob'' (Num 1) None))
       = Suc (unlockCalls store0)"
proof -
  have held: "acquireLock envRowFails store0 (lockKey ''A'' ''bob'')
      = (Held (DelKey (lockKey ''A'' ''bob'')), heldA ''bob'' store0)"
    by code_simp
  have valid: "''A'' \<noteq> [] \<and> ''bob'' \<noteq> [] \<and> (Num 1 \<noteq> Undefined \<or> truthyCategory None)
      \<and> minUserIDLength envRowFails \<le> length ''bob''"
    by code_simp
  have pre: "\<not> throws envRowFails LoadSegment \<and> \<not> throws envRowFails TempVIPLookup
      \<and> \<not> throws envRowFails VIPLookup \<and> \<not> throws envRowFails BanLookup
      \<and> \<not> throws envRowFails WarningsQuery \<and> \<not> throws envRowFails VideoLockQuery"
    by code_simp
  have inside: "throws envRowFails VotesRowQuery" by code_simp
  from vote_releases_lock_once [OF held valid pre, of "''ip''"] held valid pre inside
  show ?thesis by simp
qed

lemma incrementAmountOf_cases:
  "incrementAmountOf n = Some i0 \<Longrightarrow>
     (n = 1 \<and> i0 = 1) \<or> (n = 0 \<and> i0 = - 1) \<or> (n = 30 \<and> i0 = - 1) \<or> (n = 20 \<and> i0 = 0)"
  by (auto simp: incrementAmountOf_def split: if_splits)

text \<open>
  The arithmetic of a repeated vote: when a vote of a recognised type has stored its
  reassigned type \<open>ty1\<close> and changed the votes by \<open>inc1 - old0\<close>, the same vote again
  computes an increment equal to what the stored row decodes to, so that it would
  change the votes by 0; the one exception is the unprivileged malicious vote whose
  stored value is 12.
\<close>

theorem repeated_vote_delta_zero:
  assumes known: "incrementAmountOf n = Some i0"
      and first: "amplify c n i0 old0 = (inc1, ty1)"
      and after: "c' = c\<lparr>segmentInfo :=
                         (segmentInfo c)\<lparr>votes := votes (segmentInfo c) + (inc1 - old0)\<rparr>\<rparr>"
      and stored: "v_type row = ty1"
      and second: "amplify c' n i0 (oldIncrementAmountOf (Some row)) = (inc2, ty2)"
      and clear: "privileged c \<or> n \<noteq> 30 \<or> ty1 \<noteq> 12"
  shows "inc2 - oldIncrementAmountOf (Some row) = 0"
proof -
  have p: "privileged c' = privileged c" by (simp add: after privileged_def)
  have v: "votes (segmentInfo c') = votes (segmentInfo c) + (inc1 - old0)" by (simp add: after)
  from incrementAmountOf_cases [OF known] first second clear stored show ?thesis
    by (auto simp: amplify_def oldIncrementAmountOf_def p v min_def split: if_splits)
qed


theorem repeated_vote_delta_zero_witness:
  "incrementAmountOf 0 = Some (- 1)
   \<and> amplify vipOnA 0 (- 1) 0 = (- 5, - 5)
   \<and> v_type vipRowA = - 5
   \<and> privileged vipOnA
   \<and> amplify (vipOnA\<lparr>segmentInfo := (segmentInfo vipOnA)\<lparr>votes := votes (segmentInfo vipOnA) + (- 5 - 0)\<rparr>\<rparr>)
        0 (- 1) (oldIncrementAmountOf (Some vipRowA)) = (- 5, - 5)
   \<and> - 5 - oldIncrementAmountOf (Some vipRowA) = 0"
proof -
  let ?c' = "vipOnA\<lparr>segmentInfo := (segmentInfo vipOnA)\<lparr>votes := votes (segmentInfo vipOnA) + (- 5 - 0)\<rparr>\<rparr>"
  have known: "incrementAmountOf 0 = Some (- 1)" by code_simp
  have first: "amplify vipOnA 0 (- 1) 0 = (- 5, - 5)" by code_simp
  have stored: "v_type vipRowA = - 5" by code_simp
  have second: "amplify ?c' 0 (- 1) (oldIncrementAmountOf (Some vipRowA)) = (- 5, - 5)"
    by code_simp
  have clear: "privileged vipOnA \<or> (0::int) \<noteq> 30 \<or> (- 5::int) \<noteq> 12" by simp
  have priv: "privileged vipOnA" by code_simp
  from repeated_vote_delta_zero [OF known first refl stored second clear]
  have "- 5 - oldIncrementAmountOf (Some vipRowA) = 0" .
  with known first stored priv second show ?thesis by (intro conjI)
qed

end
